theory Spec2Isabelle
  imports Main "HOL-Library.Word" "HOL-Library.Signed_Division"
begin

unbundle bit_operations_syntax

section \<open>The expression calculator of expressioncalculator.c\<close>

text \<open>
  The program reads one line, converts it to postfix with the shunting-yard algorithm
  (\<open>infix_to_postfix\<close>) and evaluates the postfix tokens (\<open>evaluate_postfix\<close>).
  Both functions return 0 after writing a message into \<open>err_msg\<close>, or 1 with their
  result; here they return \<open>Inl\<close> of an \<open>error\<close> or \<open>Inr\<close> of the result, and
  \<open>err_text\<close> gives the message the C code writes for each error.

  A C string is a \<open>string\<close>; the scan stops at the end of the list and at the first NUL
  character, whichever comes first. A \<open>long long\<close> is a \<open>64 word\<close>: \<open>+\<close>, \<open>-\<close>
  and \<open>*\<close> wrap around (two's complement), and \<open>sint\<close> reads the signed value.
  Signed overflow is undefined in ISO C; the wrap-around is what the specification calls
  native fixed-width signed arithmetic, and it is also taken for \<open>llabs(LLONG_MIN)\<close>.
  \<open>LLONG_MIN / -1\<close> and \<open>LLONG_MIN % -1\<close> do not wrap: the division instruction traps
  and the program is killed, which the model records as the outcome
  \<open>UndefinedDivision\<close>.
  The two stacks (an array and the index of its top) are lists whose head is the top;
  the capacity checks of \<open>cs_push\<close>, \<open>ns_push\<close> and \<open>tokens_add\<close> are kept.
  \<open>main\<close> reads each line with \<open>fgets\<close> into \<open>char line[MAX_EXPR]\<close>, so the text it
  passes to \<open>infix_to_postfix\<close> has fewer than \<open>MAX_EXPR\<close> characters.
\<close>

subsection \<open>Constants, errors and their messages\<close>

definition MAX_EXPR :: nat where "MAX_EXPR = 4096"
definition MAX_TOKENS :: nat where "MAX_TOKENS = 4096"
definition MAX_TOKEN_LEN :: nat where "MAX_TOKEN_LEN = 64"

type_synonym llong = "64 word"

definition LLONG_MAX :: llong where "LLONG_MAX = 9223372036854775807"
definition LLONG_MIN :: llong where "LLONG_MIN = - 9223372036854775807 - 1"

datatype error =
    NumberTokenTooLong
  | TooManyTokens
  | OperatorStackOverflow
  | MismatchedParentheses
  | UnexpectedOperator
  | InvalidCharacter char
  | ExpressionEndsUnexpectedly
  | NotEnoughOperandsUnary
  | NotEnoughOperandsBinary
  | ValueStackOverflow
  | DivisionByZero
  | ModuloByZero
  | InvalidOrOverflowExp
  | UnknownOperator
  | InvalidNumber
  | ExtraOperands
  | UndefinedDivision

text \<open>
  \<open>UndefinedDivision\<close> is not an error that the C code reports: it stands for the
  evaluation of \<open>LLONG_MIN / -1\<close> or \<open>LLONG_MIN % -1\<close>, whose behaviour is undefined
  and where the program is killed by the signal \<open>SIGFPE\<close> before any message is
  written. Its text is empty.
\<close>

fun err_text :: "error \<Rightarrow> string" where
  "err_text NumberTokenTooLong = ''Number token too long''"
| "err_text TooManyTokens = ''Too many tokens''"
| "err_text OperatorStackOverflow = ''Operator stack overflow''"
| "err_text MismatchedParentheses = ''Mismatched parentheses''"
| "err_text UnexpectedOperator = ''Unexpected operator''"
| "err_text (InvalidCharacter c) = ''Invalid character: '' @ [CHR 0x27, c, CHR 0x27]"
| "err_text ExpressionEndsUnexpectedly = ''Expression ends unexpectedly''"
| "err_text NotEnoughOperandsUnary = ''Not enough operands for unary minus''"
| "err_text NotEnoughOperandsBinary = ''Not enough operands for binary operator''"
| "err_text ValueStackOverflow = ''Value stack overflow''"
| "err_text DivisionByZero = ''Division by zero''"
| "err_text ModuloByZero = ''Modulo by zero''"
| "err_text InvalidOrOverflowExp = ''Invalid or overflow in exponentiation''"
| "err_text UnknownOperator = ''Unknown operator in evaluation''"
| "err_text InvalidNumber = ''Invalid number in postfix''"
| "err_text ExtraOperands = ''Extra operands or insufficient operators''"
| "err_text UndefinedDivision = []"

subsection \<open>The C library functions the program calls\<close>

text \<open>
  \<open>isspace\<close> and \<open>isdigit\<close> in the "C" locale (the program never calls
  \<open>setlocale\<close>): space, \<open>\t \n \v \f \r\<close>, and \<open>0\<close> to \<open>9\<close>.
\<close>

definition isspace :: "char \<Rightarrow> bool" where
  "isspace c = (c = CHR 0x20 \<or> c = CHR 0x09 \<or> c = CHR 0x0A \<or> c = CHR 0x0B
                \<or> c = CHR 0x0C \<or> c = CHR 0x0D)"

definition isdigit :: "char \<Rightarrow> bool" where
  "isdigit c = (48 \<le> (of_char c :: nat) \<and> (of_char c :: nat) \<le> 57)"

text \<open>
  \<open>llabs\<close>: the negation of \<open>LLONG_MIN\<close> is not representable (undefined in ISO C);
  the two's complement result is \<open>LLONG_MIN\<close> again, as \<open>-\<close> on words gives.
\<close>

definition llabs :: "llong \<Rightarrow> llong" where
  "llabs x = (if x <s 0 then - x else x)"

text \<open>
  C's \<open>/\<close> and \<open>%\<close> on \<open>long long\<close>: the quotient truncated towards zero
  (\<open>sdiv\<close> on \<open>int\<close>) and its remainder (\<open>smod\<close>), taken on the signed values.
  Both are undefined, \<open>None\<close> here, when the divisor is 0 and when the quotient is not
  representable, which is the one case of \<open>LLONG_MIN\<close> divided by \<open>-1\<close>.
\<close>

definition ll_div :: "llong \<Rightarrow> llong \<Rightarrow> llong option" where
  "ll_div a b =
     (if b = 0 \<or> (a = LLONG_MIN \<and> b = - 1) then None
      else Some (word_of_int (sint a sdiv sint b)))"

definition ll_mod :: "llong \<Rightarrow> llong \<Rightarrow> llong option" where
  "ll_mod a b =
     (if b = 0 \<or> (a = LLONG_MIN \<and> b = - 1) then None
      else Some (word_of_int (sint a smod sint b)))"

text \<open>
  \<open>strtoll(t, &endptr, 10)\<close>: white space is skipped, then an optional sign, then the
  longest run of decimal digits. \<open>None\<close> stands for "no conversion" (\<open>endptr == t\<close>);
  otherwise the result is the value, whether \<open>errno\<close> was set to \<open>ERANGE\<close> (the value
  is then clamped), and the text left at \<open>endptr\<close>.
\<close>

fun strtoll_digits :: "string \<Rightarrow> int \<Rightarrow> int \<times> string" where
  "strtoll_digits [] acc = (acc, [])"
| "strtoll_digits (c # cs) acc =
     (if isdigit c then strtoll_digits cs (acc * 10 + (of_char c - 48)) else (acc, c # cs))"

definition strtoll_sign :: "string \<Rightarrow> bool \<times> string" where
  "strtoll_sign s =
     (case s of
        [] \<Rightarrow> (False, [])
      | c # r \<Rightarrow> if c = CHR ''-'' then (True, r)
                else if c = CHR ''+'' then (False, r)
                else (False, s))"

definition strtoll :: "string \<Rightarrow> (llong \<times> bool \<times> string) option" where
  "strtoll t =
     (case strtoll_sign (dropWhile isspace t) of
        (neg, s) \<Rightarrow>
          (case s of
             [] \<Rightarrow> None
           | c # r \<Rightarrow>
               if \<not> isdigit c then None
               else (case strtoll_digits s 0 of
                       (n, rest) \<Rightarrow>
                         let v = (if neg then - n else n) in
                         if v > sint LLONG_MAX then Some (LLONG_MAX, True, rest)
                         else if v < sint LLONG_MIN then Some (LLONG_MIN, True, rest)
                         else Some (word_of_int v, False, rest))))"

subsection \<open>Stacks and the token list\<close>

definition cs_push :: "char list \<Rightarrow> char \<Rightarrow> char list option" where
  "cs_push s c = (if length s \<ge> MAX_TOKENS then None else Some (c # s))"

definition ns_push :: "llong list \<Rightarrow> llong \<Rightarrow> llong list option" where
  "ns_push s v = (if length s \<ge> MAX_TOKENS then None else Some (v # s))"

definition tokens_add :: "string list \<Rightarrow> string \<Rightarrow> string list option" where
  "tokens_add tlist s =
     (if length tlist \<ge> MAX_TOKENS then None
      else Some (tlist @ [take (MAX_TOKEN_LEN - 1) s]))"

subsection \<open>Operator utilities\<close>

definition is_operator :: "char \<Rightarrow> bool" where
  "is_operator c = (c = CHR ''+'' \<or> c = CHR ''-'' \<or> c = CHR ''*'' \<or> c = CHR ''/''
                    \<or> c = CHR ''%'' \<or> c = CHR ''^'' \<or> c = CHR ''u'')"

definition precedence :: "char \<Rightarrow> int" where
  "precedence op =
     (if op = CHR ''u'' then 4
      else if op = CHR ''^'' then 3
      else if op = CHR ''*'' \<or> op = CHR ''/'' \<or> op = CHR ''%'' then 2
      else if op = CHR ''+'' \<or> op = CHR ''-'' then 1
      else 0)"

definition is_right_assoc :: "char \<Rightarrow> bool" where
  "is_right_assoc op = (op = CHR ''^'' \<or> op = CHR ''u'')"

subsection \<open>Integer power\<close>

text \<open>
  The loop of \<open>safe_pow_ll\<close>. It runs only on a non-negative \<open>exp\<close>, where \<open>>>= 1\<close>
  is \<open>drop_bit 1\<close>. Both divisions have the dividend \<open>LLONG_MAX\<close> and stand behind a
  test that the divisor is not 0, so they are defined wherever the C code evaluates them
  (\<open>ll_div_LLONG_MAX\<close> below) and the branch for \<open>None\<close> is never taken there.
\<close>

function safe_pow_loop :: "llong \<Rightarrow> llong \<Rightarrow> llong \<Rightarrow> llong option" where
  "safe_pow_loop base exp result =
     (if exp = 0 then Some result
      else if exp AND 1 \<noteq> 0 \<and> base \<noteq> 0
              \<and> (case ll_div LLONG_MAX (llabs base) of
                     Some q \<Rightarrow> q <s llabs result
                   | None \<Rightarrow> False)
        then None
      else
        let result' = (if exp AND 1 \<noteq> 0 then result * base else result);
            exp' = drop_bit 1 exp
        in if exp' \<noteq> 0 \<and> 0 <s llabs base
              \<and> (case ll_div LLONG_MAX (llabs base) of
                     Some q \<Rightarrow> q <s llabs base
                   | None \<Rightarrow> False)
           then None
           else safe_pow_loop (if exp' \<noteq> 0 then base * base else base) exp' result')"
  by pat_completeness auto
termination
proof (relation "measure (\<lambda>(b, e, r). unat e)")
  show "wf (measure (\<lambda>(b, e, r). unat e))" by simp
next
  fix base exp result :: llong and result' exp' :: llong
  assume "exp \<noteq> 0" and "exp' = drop_bit 1 exp"
  then have "unat exp' < unat exp"
    by (simp add: drop_bit_eq_div unat_div unat_gt_0)
  then show "((if exp' \<noteq> 0 then base * base else base, exp', result'), base, exp, result)
      \<in> measure (\<lambda>(b, e, r). unat e)"
    by simp
qed

declare safe_pow_loop.simps [simp del]

definition safe_pow_ll :: "llong \<Rightarrow> llong \<Rightarrow> llong option" where
  "safe_pow_ll base exp = (if exp <s 0 then None else safe_pow_loop base exp 1)"

subsection \<open>Infix to postfix (shunting-yard)\<close>

text \<open>The inner loop that copies a run of digits into \<open>buf\<close>.\<close>

fun read_digits :: "string \<Rightarrow> string \<Rightarrow> error + (string \<times> string)" where
  "read_digits [] buf = Inr (buf, [])"
| "read_digits (c # cs) buf =
     (if isdigit c
      then (if length buf + 1 \<ge> MAX_TOKEN_LEN then Inl NumberTokenTooLong
            else read_digits cs (buf @ [c]))
      else Inr (buf, c # cs))"

text \<open>The loop run at \<open>)\<close>: pop and emit until the matching \<open>(\<close>.\<close>

fun pop_to_paren :: "char list \<Rightarrow> string list \<Rightarrow> error + (char list \<times> string list)" where
  "pop_to_paren [] toks = Inl MismatchedParentheses"
| "pop_to_paren (topc # ops) toks =
     (if topc = CHR ''('' then Inr (ops, toks)
      else (case tokens_add toks [topc] of
              None \<Rightarrow> Inl TooManyTokens
            | Some toks' \<Rightarrow> pop_to_paren ops toks'))"

text \<open>The loop run at an operator: pop while higher precedence (or equal and left-assoc).\<close>

fun pop_ops :: "char \<Rightarrow> char list \<Rightarrow> string list \<Rightarrow> error + (char list \<times> string list)" where
  "pop_ops op [] toks = Inr ([], toks)"
| "pop_ops op (topc # ops) toks =
     (if is_operator topc
      then (let ptop = precedence topc; popr = precedence op in
            if ptop > popr \<or> (ptop = popr \<and> \<not> is_right_assoc op)
            then (case tokens_add toks [topc] of
                    None \<Rightarrow> Inl TooManyTokens
                  | Some toks' \<Rightarrow> pop_ops op ops toks')
            else Inr (topc # ops, toks))
      else Inr (topc # ops, toks))"

text \<open>The loop after the scan: drain the operator stack.\<close>

fun drain :: "char list \<Rightarrow> string list \<Rightarrow> error + string list" where
  "drain [] toks = Inr toks"
| "drain (topc # ops) toks =
     (if topc = CHR ''('' \<or> topc = CHR '')'' then Inl MismatchedParentheses
      else (case tokens_add toks [topc] of
              None \<Rightarrow> Inl TooManyTokens
            | Some toks' \<Rightarrow> drain ops toks'))"

lemma read_digits_length:
  "read_digits s buf = Inr (b, rest) \<Longrightarrow> length rest \<le> length s"
  by (induction s buf rule: read_digits.induct) (auto split: if_splits)

lemma read_digits_shorter:
  "isdigit c \<Longrightarrow> read_digits (c # cs) buf = Inr (b, rest) \<Longrightarrow> length rest \<le> length cs"
  by (auto split: if_splits dest: read_digits_length)

text \<open>
  The main loop of \<open>infix_to_postfix\<close>, on the text from \<open>expr[i]\<close> on, the operator
  stack, the tokens emitted so far and \<open>expect_operand\<close>.
\<close>

function scan :: "string \<Rightarrow> char list \<Rightarrow> string list \<Rightarrow> bool
    \<Rightarrow> error + (char list \<times> string list \<times> bool)" where
  "scan [] ops toks eo = Inr (ops, toks, eo)"
| "scan (c # cs) ops toks eo =
     (if c = CHR 0x00 then Inr (ops, toks, eo)
      else if isspace c then scan cs ops toks eo
      else if isdigit c then
        (case read_digits (c # cs) [] of
           Inl e \<Rightarrow> Inl e
         | Inr (buf, rest) \<Rightarrow>
             (case tokens_add toks buf of
                None \<Rightarrow> Inl TooManyTokens
              | Some toks' \<Rightarrow> scan rest ops toks' False))
      else if c = CHR ''('' then
        (case cs_push ops (CHR ''('') of
           None \<Rightarrow> Inl OperatorStackOverflow
         | Some ops' \<Rightarrow> scan cs ops' toks True)
      else if c = CHR '')'' then
        (case pop_to_paren ops toks of
           Inl e \<Rightarrow> Inl e
         | Inr (ops', toks') \<Rightarrow> scan cs ops' toks' False)
      else if is_operator c then
        (if \<not> (c = CHR ''-'' \<and> eo) \<and> eo \<and> c \<noteq> CHR ''u'' then Inl UnexpectedOperator
         else
           let op = (if c = CHR ''-'' \<and> eo then CHR ''u'' else c) in
           (case pop_ops op ops toks of
              Inl e \<Rightarrow> Inl e
            | Inr (ops', toks') \<Rightarrow>
                (case cs_push ops' op of
                   None \<Rightarrow> Inl OperatorStackOverflow
                 | Some ops'' \<Rightarrow> scan cs ops'' toks' (op \<noteq> CHR ''u''))))
      else Inl (InvalidCharacter c))"
  by pat_completeness auto
termination
  by (relation "measure (\<lambda>(s, ops, toks, eo). length s)")
     (auto simp del: read_digits.simps dest: read_digits_shorter)

declare scan.simps [simp del]

definition infix_to_postfix :: "string \<Rightarrow> error + string list" where
  "infix_to_postfix expr =
     (case scan expr [] [] True of
        Inl e \<Rightarrow> Inl e
      | Inr (ops, toks, eo) \<Rightarrow>
          (case drain ops toks of
             Inl e \<Rightarrow> Inl e
           | Inr toks' \<Rightarrow> if eo then Inl ExpressionEndsUnexpectedly else Inr toks'))"

subsection \<open>Postfix evaluation\<close>

definition apply_op :: "char \<Rightarrow> llong list \<Rightarrow> error + llong list" where
  "apply_op op stk =
     (if op = CHR ''u'' then
        (case stk of
           [] \<Rightarrow> Inl NotEnoughOperandsUnary
         | a # s \<Rightarrow> (case ns_push s (- a) of
                       None \<Rightarrow> Inl ValueStackOverflow
                     | Some s' \<Rightarrow> Inr s'))
      else
        (case stk of
           b # a # s \<Rightarrow>
             (case (if op = CHR ''+'' then Inr (a + b)
                    else if op = CHR ''-'' then Inr (a - b)
                    else if op = CHR ''*'' then Inr (a * b)
                    else if op = CHR ''/'' then
                      (if b = 0 then Inl DivisionByZero
                       else (case ll_div a b of
                               None \<Rightarrow> Inl UndefinedDivision
                             | Some q \<Rightarrow> Inr q))
                    else if op = CHR ''%'' then
                      (if b = 0 then Inl ModuloByZero
                       else (case ll_mod a b of
                               None \<Rightarrow> Inl UndefinedDivision
                             | Some q \<Rightarrow> Inr q))
                    else if op = CHR ''^'' then
                      (case safe_pow_ll a b of
                         None \<Rightarrow> Inl InvalidOrOverflowExp
                       | Some r \<Rightarrow> Inr r)
                    else Inl UnknownOperator) of
                Inl e \<Rightarrow> Inl e
              | Inr r \<Rightarrow> (case ns_push s r of
                            None \<Rightarrow> Inl ValueStackOverflow
                          | Some s' \<Rightarrow> Inr s'))
         | _ \<Rightarrow> Inl NotEnoughOperandsBinary))"

fun eval_loop :: "string list \<Rightarrow> llong list \<Rightarrow> error + llong list" where
  "eval_loop [] stk = Inr stk"
| "eval_loop (t # ts) stk =
     (if length t = 1 \<and> is_operator (hd t) then
        (case apply_op (hd t) stk of
           Inl e \<Rightarrow> Inl e
         | Inr stk' \<Rightarrow> eval_loop ts stk')
      else
        (case strtoll t of
           None \<Rightarrow> Inl InvalidNumber
         | Some (val, erange, endptr) \<Rightarrow>
             if erange \<or> endptr \<noteq> [] then Inl InvalidNumber
             else (case ns_push stk val of
                     None \<Rightarrow> Inl ValueStackOverflow
                   | Some stk' \<Rightarrow> eval_loop ts stk')))"

definition evaluate_postfix :: "string list \<Rightarrow> error + llong" where
  "evaluate_postfix postfix =
     (case eval_loop postfix [] of
        Inl e \<Rightarrow> Inl e
      | Inr stk \<Rightarrow> if length stk \<noteq> 1 then Inl ExtraOperands else Inr (hd stk))"

subsection \<open>Printing the postfix tokens\<close>

fun print_postfix :: "string list \<Rightarrow> string" where
  "print_postfix [] = [CHR 0x0A]"
| "print_postfix (t # ts) =
     (if length t = 1 \<and> hd t = CHR ''u'' then ''~'' else t)
     @ (if ts \<noteq> [] then '' '' else [])
     @ print_postfix ts"

subsection \<open>The pop condition in the words of the specification\<close>

text \<open>
  The specification pops the stack top before pushing the current operator when the top is
  an operator whose precedence is strictly greater, or equal while the current operator is
  left-associative.
\<close>

definition spec_pop_condition :: "char \<Rightarrow> char \<Rightarrow> bool" where
  "spec_pop_condition cur topc =
     (is_operator topc \<and>
      (precedence topc > precedence cur
       \<or> (precedence topc = precedence cur \<and> \<not> is_right_assoc cur)))"

subsection \<open>One iteration of the scan\<close>

text \<open>
  The body of the \<open>while\<close> loop of \<open>infix_to_postfix\<close> as a function of its own: the
  text left to read and the new state, or the error. \<open>scan_unfold\<close> below shows that
  \<open>scan\<close> is the iteration of this step. \<open>emit_number\<close> is the step at a digit, with
  the two inner loops resolved.
\<close>

definition scan_step :: "char \<Rightarrow> string \<Rightarrow> char list \<Rightarrow> string list \<Rightarrow> bool
    \<Rightarrow> error + (string \<times> char list \<times> string list \<times> bool)" where
  "scan_step c cs ops toks eo =
     (if isspace c then Inr (cs, ops, toks, eo)
      else if isdigit c then
        (case read_digits (c # cs) [] of
           Inl e \<Rightarrow> Inl e
         | Inr (buf, rest) \<Rightarrow>
             (case tokens_add toks buf of
                None \<Rightarrow> Inl TooManyTokens
              | Some toks' \<Rightarrow> Inr (rest, ops, toks', False)))
      else if c = CHR ''('' then
        (case cs_push ops (CHR ''('') of
           None \<Rightarrow> Inl OperatorStackOverflow
         | Some ops' \<Rightarrow> Inr (cs, ops', toks, True))
      else if c = CHR '')'' then
        (case pop_to_paren ops toks of
           Inl e \<Rightarrow> Inl e
         | Inr (ops', toks') \<Rightarrow> Inr (cs, ops', toks', False))
      else if is_operator c then
        (if \<not> (c = CHR ''-'' \<and> eo) \<and> eo \<and> c \<noteq> CHR ''u'' then Inl UnexpectedOperator
         else
           let op = (if c = CHR ''-'' \<and> eo then CHR ''u'' else c) in
           (case pop_ops op ops toks of
              Inl e \<Rightarrow> Inl e
            | Inr (ops', toks') \<Rightarrow>
                (case cs_push ops' op of
                   None \<Rightarrow> Inl OperatorStackOverflow
                 | Some ops'' \<Rightarrow> Inr (cs, ops'', toks', op \<noteq> CHR ''u''))))
      else Inl (InvalidCharacter c))"

definition emit_number :: "char \<Rightarrow> string \<Rightarrow> char list \<Rightarrow> string list
    \<Rightarrow> error + (string \<times> char list \<times> string list \<times> bool)" where
  "emit_number c cs ops toks =
     (if length (takeWhile isdigit (c # cs)) \<ge> MAX_TOKEN_LEN then Inl NumberTokenTooLong
      else if length toks \<ge> MAX_TOKENS then Inl TooManyTokens
      else Inr (dropWhile isdigit cs, ops, toks @ [takeWhile isdigit (c # cs)], False))"

subsection \<open>Well-formed tokens and stacks\<close>

text \<open>
  The evaluator takes a token for an operator when it has one character and
  \<open>is_operator\<close> holds of it; a numeral, as the parser emits it, is a run of one to
  \<open>MAX_TOKEN_LEN - 1\<close> decimal digits, and \<open>dec_value\<close> is the number it denotes. The
  operator stack holds operators and open parentheses only.
\<close>

definition operator_token :: "string \<Rightarrow> bool" where
  "operator_token t = (length t = 1 \<and> is_operator (hd t))"

definition numeral_token :: "string \<Rightarrow> bool" where
  "numeral_token t = (t \<noteq> [] \<and> length t < MAX_TOKEN_LEN \<and> list_all isdigit t)"

definition dec_value :: "string \<Rightarrow> int" where
  "dec_value t = foldl (\<lambda>n c. n * 10 + (of_char c - 48)) 0 t"

definition ops_ok :: "char list \<Rightarrow> bool" where
  "ops_ok ops = list_all (\<lambda>c. c = CHR ''('' \<or> is_operator c) ops"

definition toks_ok :: "string list \<Rightarrow> bool" where
  "toks_ok toks = list_all (\<lambda>t. operator_token t \<or> numeral_token t) toks"

section \<open>Auxiliary facts\<close>

subsection \<open>Signed values of 64-bit words\<close>

lemma sint_ll_range: "- (2 ^ 63) \<le> sint (x :: llong) \<and> sint x < 2 ^ 63"
  using sint_ge [of x] sint_lt [of x] by simp

lemma sint_of_int_ll:
  "- (2 ^ 63) \<le> k \<Longrightarrow> k < 2 ^ 63 \<Longrightarrow> sint (word_of_int k :: llong) = k"
  by (simp add: sint_sbintrunc' signed_take_bit_int_eq_self)

lemma sint_LLONG_MAX: "sint LLONG_MAX = 2 ^ 63 - 1"
  by (simp add: LLONG_MAX_def)

lemma sint_LLONG_MIN: "sint LLONG_MIN = - (2 ^ 63)"
  by (simp add: LLONG_MIN_def)

lemma LLONG_MIN_iff: "(x = LLONG_MIN) = (sint x = - (2 ^ 63))"
  using sint_LLONG_MIN by (metis signed_word_eqI)

lemma sint_smod_ll:
  "b \<noteq> 0 \<Longrightarrow> sint (word_of_int (sint a smod sint b) :: llong) = sint a smod sint (b::llong)"
proof -
  assume "b \<noteq> 0"
  then have nz: "sint b \<noteq> 0" by (simp add: signed_eq_0_iff)
  have "sint a smod sint b \<in> {- \<bar>sint b\<bar> + 1..\<bar>sint b\<bar> - 1}"
    using smod_int_range [OF nz] .
  moreover have "\<bar>sint b\<bar> \<le> 2 ^ 63"
    using sint_ll_range [of b] by (simp add: abs_le_iff)
  ultimately have "- (2 ^ 63) \<le> sint a smod sint b" "sint a smod sint b < 2 ^ 63"
    by auto
  then show ?thesis
    by (rule sint_of_int_ll)
qed

lemma sdiv_bound:
  fixes A B :: int
  assumes "- (2 ^ 63) \<le> A" "A < 2 ^ 63" "B \<noteq> 0" "\<not> (A = - (2 ^ 63) \<and> B = - 1)"
  shows "- (2 ^ 63) \<le> A sdiv B \<and> A sdiv B < 2 ^ 63"
proof (cases "B = 1 \<or> B = - 1")
  case True
  with assms show ?thesis by auto
next
  case False
  with assms have B2: "2 \<le> \<bar>B\<bar>" by auto
  have "0 \<le> \<bar>A\<bar> div \<bar>B\<bar>"
    by (simp add: pos_imp_zdiv_nonneg_iff assms(3))
  then have "\<bar>A sdiv B\<bar> = \<bar>A\<bar> div \<bar>B\<bar>"
    using assms(3) by (cases "A = 0") (simp_all add: signed_divide_int_def abs_mult)
  also have "\<dots> \<le> \<bar>A\<bar> div 2"
    using B2 by (simp add: zdiv_mono2)
  also have "\<dots> < 2 ^ 63"
    using assms(1,2) by auto
  finally show ?thesis by auto
qed

lemma sint_sdiv_ll:
  "b \<noteq> 0 \<Longrightarrow> \<not> (a = LLONG_MIN \<and> b = - 1) \<Longrightarrow>
     sint (word_of_int (sint a sdiv sint b) :: llong) = sint a sdiv sint (b::llong)"
proof -
  assume b: "b \<noteq> 0" and ov: "\<not> (a = LLONG_MIN \<and> b = - 1)"
  from b have nz: "sint b \<noteq> 0" by (simp add: signed_eq_0_iff)
  have m1: "(b = - 1) = (sint b = - 1)"
    by (metis sint_n1 signed_word_eqI)
  from ov have "\<not> (sint a = - (2 ^ 63) \<and> sint b = - 1)"
    by (simp add: LLONG_MIN_iff m1)
  then have "- (2 ^ 63) \<le> sint a sdiv sint b \<and> sint a sdiv sint b < 2 ^ 63"
    using sdiv_bound [of "sint a" "sint b"] sint_ll_range [of a] nz by blast
  then show ?thesis
    by (simp add: sint_of_int_ll)
qed

lemma ll_div_defined:
  "b \<noteq> 0 \<Longrightarrow> \<not> (a = LLONG_MIN \<and> b = - 1) \<Longrightarrow>
     ll_div a b = Some (word_of_int (sint a sdiv sint b))
     \<and> ll_mod a b = Some (word_of_int (sint a smod sint b))"
  by (simp add: ll_div_def ll_mod_def)

lemma ll_div_LLONG_MAX:
  "y \<noteq> 0 \<Longrightarrow> ll_div LLONG_MAX y = Some (word_of_int (sint LLONG_MAX sdiv sint y))"
  by (simp add: ll_div_def LLONG_MAX_def LLONG_MIN_def)

lemma llabs_zero: "(llabs x = 0) = (x = 0)"
  by (simp add: llabs_def)

lemma word_div_mod_eq:
  "(word_of_int (sint a sdiv sint b) :: llong) * b + word_of_int (sint a smod sint b) = a"
proof -
  have "(word_of_int (sint a sdiv sint b) :: llong) * b + word_of_int (sint a smod sint b)
      = word_of_int (sint a sdiv sint b * sint b + sint a smod sint b)"
    by simp
  also have "\<dots> = word_of_int (sint a)"
    by (simp only: sdiv_mult_smod_eq)
  finally show ?thesis by simp
qed

lemma smod_sign:
  fixes A B :: int
  shows "(0 \<le> A \<longrightarrow> 0 \<le> A smod B) \<and> (A \<le> 0 \<longrightarrow> A smod B \<le> 0)"
proof (cases "B = 0")
  case True
  then show ?thesis by simp
next
  case False
  then have "0 \<le> \<bar>A\<bar> mod \<bar>B\<bar>" by simp
  then show ?thesis
    by (auto simp: smod_int_alt_def sgn_if)
qed

lemma ns_push_ok: "length s < MAX_TOKENS \<Longrightarrow> ns_push s v = Some (v # s)"
  by (simp add: ns_push_def)

lemma int_div_less_iff:
  fixes k b r :: int
  assumes "0 < b"
  shows "(k div b < r) = (k < r * b)"
proof
  assume "k div b < r"
  then have "(k div b + 1) * b \<le> r * b"
    using assms by (simp add: mult_right_mono)
  then have "k div b * b + b \<le> r * b"
    by (simp add: distrib_right)
  moreover have "k div b * b + k mod b = k" by simp
  moreover have "k mod b < b" using assms by simp
  ultimately show "k < r * b" by linarith
next
  assume lt: "k < r * b"
  show "k div b < r"
  proof (rule ccontr)
    assume "\<not> k div b < r"
    then have "r * b \<le> k div b * b"
      using assms by (simp add: mult_right_mono)
    moreover have "k div b * b + k mod b = k" by simp
    moreover have "0 \<le> k mod b" using assms by simp
    ultimately show False using lt by linarith
  qed
qed

lemma sint_mult_ll:
  "\<bar>sint (a::llong) * sint b\<bar> \<le> 2 ^ 63 - 1 \<Longrightarrow> sint (a * b) = sint a * sint b"
  by (simp add: sint_word_mult signed_take_bit_int_eq_self abs_le_iff)

lemma llabs_sint: "x \<noteq> LLONG_MIN \<Longrightarrow> sint (llabs x) = \<bar>sint x\<bar>"
proof -
  assume "x \<noteq> LLONG_MIN"
  then have "sint x \<noteq> - (2 ^ 63)" by (simp add: LLONG_MIN_iff)
  then have "- (2 ^ 63) \<le> - sint x" "- sint x < 2 ^ 63"
    using sint_ll_range [of x] by auto
  then have "sint (- x) = - sint x"
    by (simp add: sint_word_minus signed_take_bit_int_eq_self)
  then show ?thesis
    by (simp add: llabs_def word_sless_alt)
qed

lemma exp_odd: "((e::llong) AND 1 \<noteq> 0) = odd (unat e)"
proof -
  have "(e AND 1 = 0) = even e"
    by (simp add: and_one_eq even_iff_mod_2_eq_zero)
  also have "\<dots> = even (unat e)"
  proof -
    have "bit (unat e) 0 = bit e 0"
      by (simp add: bit_unsigned_iff)
    then show ?thesis by (simp add: bit_0)
  qed
  finally show ?thesis by simp
qed

lemma exp_shift: "unat (drop_bit 1 (e::llong)) = unat e div 2"
  by (simp add: drop_bit_eq_div unat_div)

lemma sint_nonneg_unat: "\<not> (e::llong) <s 0 \<Longrightarrow> sint e = int (unat e)"
proof -
  assume "\<not> e <s 0"
  then have "0 \<le> sint e" by (simp add: word_sless_alt)
  moreover have "sint e < 2 ^ 64"
    using sint_ll_range [of e] by simp
  ultimately have "take_bit 64 (sint e) = sint e"
    by (simp add: take_bit_int_eq_self)
  then have "uint e = sint e"
    using uint_sint [of e] by simp
  with \<open>0 \<le> sint e\<close> show ?thesis by (simp add: unat_eq_nat_uint)
qed

lemma pow_check:
  assumes "base \<noteq> LLONG_MIN" "x \<noteq> LLONG_MIN" "base \<noteq> 0"
  shows "(case ll_div LLONG_MAX (llabs base) of Some q \<Rightarrow> q <s llabs x | None \<Rightarrow> False)
       = (2 ^ 63 - 1 < \<bar>sint x\<bar> * \<bar>sint base\<bar>)"
proof -
  from assms(3) have dv: "ll_div LLONG_MAX (llabs base)
      = Some (word_of_int (sint LLONG_MAX sdiv sint (llabs base)))"
    by (intro ll_div_LLONG_MAX) (simp add: llabs_zero)
  from assms(3) have nz: "sint base \<noteq> 0" by (simp add: signed_eq_0_iff)
  then have pos: "0 < \<bar>sint base\<bar>" by simp
  have le: "\<bar>sint base\<bar> \<le> 2 ^ 63 - 1"
    using assms(1) sint_ll_range [of base] by (simp add: LLONG_MIN_iff abs_le_iff)
  have "sint LLONG_MAX sdiv \<bar>sint base\<bar> = (2 ^ 63 - 1) div \<bar>sint base\<bar>"
    using pos by (simp add: sint_LLONG_MAX signed_divide_int_def)
  moreover have "0 \<le> (2 ^ 63 - 1) div \<bar>sint base\<bar>"
    using pos by (simp add: pos_imp_zdiv_nonneg_iff)
  moreover have "(2 ^ 63 - 1) div \<bar>sint base\<bar> \<le> 2 ^ 63 - 1"
    using zdiv_mono2 [of "2 ^ 63 - 1" 1 "\<bar>sint base\<bar>"] pos by simp
  ultimately have "sint (word_of_int (sint LLONG_MAX sdiv sint (llabs base)) :: llong)
      = (2 ^ 63 - 1) div \<bar>sint base\<bar>"
    by (simp add: llabs_sint assms(1) sint_of_int_ll)
  then show ?thesis
    unfolding dv by (simp add: word_sless_alt llabs_sint assms int_div_less_iff [OF pos])
qed

lemma not_MIN_abs: "(x::llong) \<noteq> LLONG_MIN \<Longrightarrow> \<bar>sint x\<bar> \<le> 2 ^ 63 - 1"
  using sint_ll_range [of x] by (simp add: LLONG_MIN_iff abs_le_iff)

lemma abs_fits_not_MIN: "\<bar>sint (x::llong)\<bar> \<le> 2 ^ 63 - 1 \<Longrightarrow> x \<noteq> LLONG_MIN"
  by (auto simp: LLONG_MIN_iff)

lemma llabs_pos: "(x::llong) \<noteq> LLONG_MIN \<Longrightarrow> (0 <s llabs x) = (x \<noteq> 0)"
  by (simp add: word_sless_alt llabs_sint signed_eq_0_iff)

lemma word_of_sint_ll: "word_of_int (sint (x::llong)) = x"
  by simp

lemma exp_shift_zero: "(drop_bit 1 (e::llong) = 0) = (unat e div 2 = 0)"
  using exp_shift [of e] by (metis unat_eq_zero)

lemma safe_pow_loop_step:
  assumes "base \<noteq> LLONG_MIN" "result \<noteq> LLONG_MIN" "e \<noteq> 0"
  shows "safe_pow_loop base e result =
     (if odd (unat e) \<and> base \<noteq> 0 \<and> 2 ^ 63 - 1 < \<bar>sint result\<bar> * \<bar>sint base\<bar> then None
      else if unat e div 2 \<noteq> 0 \<and> base \<noteq> 0 \<and> 2 ^ 63 - 1 < \<bar>sint base\<bar> * \<bar>sint base\<bar> then None
      else safe_pow_loop (if unat e div 2 \<noteq> 0 then base * base else base) (drop_bit 1 e)
             (if odd (unat e) then result * base else result))"
  apply (subst safe_pow_loop.simps)
  apply (simp only: assms(3) if_False Let_def exp_odd exp_shift_zero llabs_pos [OF assms(1)])
  apply (cases "base = 0")
   apply (simp add: )
  apply (simp add: pow_check assms)
  done

subsection \<open>The loop of the integer power\<close>

lemma pow_split:
  fixes B :: int and n :: nat
  shows "B ^ n = (if odd n then B else 1) * (B * B) ^ (n div 2)"
proof -
  have "n = n mod 2 + 2 * (n div 2)" by simp
  then have "B ^ n = B ^ (n mod 2) * B ^ (2 * (n div 2))"
    by (metis power_add)
  also have "B ^ (2 * (n div 2)) = (B * B) ^ (n div 2)"
    by (simp add: power_mult power2_eq_square)
  also have "B ^ (n mod 2) = (if odd n then B else 1)"
    by (auto simp: odd_iff_mod_2_eq_one)
  finally show ?thesis .
qed

lemma exp_shift_Suc: "unat (drop_bit (Suc 0) (e::llong)) = unat e div 2"
  using exp_shift [of e] by simp

lemma abs_pow_mono:
  fixes B :: int
  assumes "B \<noteq> 0" "m \<le> n"
  shows "\<bar>B\<bar> ^ m \<le> \<bar>B\<bar> ^ n"
  using assms by (intro power_increasing) auto

lemma safe_pow_loop_correct:
  fixes base e result :: llong
  assumes "base \<noteq> LLONG_MIN" "result \<noteq> LLONG_MIN" "result \<noteq> 0 \<or> base = 0"
  shows "safe_pow_loop base e result =
     (if \<bar>sint result * sint base ^ unat e\<bar> \<le> 2 ^ 63 - 1
      then Some (word_of_int (sint result * sint base ^ unat e)) else None)"
  using assms
proof (induction "unat e" arbitrary: base e result rule: less_induct)
  case less
  define B R n where "B = sint base" and "R = sint result" and "n = unat e"
  note bMIN = less.prems(1) and rMIN = less.prems(2) and inv = less.prems(3)
  have B0: "(base = 0) = (B = 0)" by (simp add: B_def signed_eq_0_iff)
  have R0: "(result = 0) = (R = 0)" by (simp add: R_def signed_eq_0_iff)
  show ?case
  proof (cases "e = 0")
    case True
    then show ?thesis
      using not_MIN_abs [OF rMIN] by (subst safe_pow_loop.simps) simp
  next
    case False
    then have npos: "1 \<le> n" by (simp add: n_def unat_gt_0 Suc_le_eq)
    have step: "safe_pow_loop base e result =
       (if odd n \<and> base \<noteq> 0 \<and> 2 ^ 63 - 1 < \<bar>R\<bar> * \<bar>B\<bar> then None
        else if n div 2 \<noteq> 0 \<and> base \<noteq> 0 \<and> 2 ^ 63 - 1 < \<bar>B\<bar> * \<bar>B\<bar> then None
        else safe_pow_loop (if n div 2 \<noteq> 0 then base * base else base) (drop_bit 1 e)
               (if odd n then result * base else result))"
      unfolding B_def R_def n_def by (rule safe_pow_loop_step [OF bMIN rMIN False])
    show ?thesis
    proof (cases "odd n \<and> base \<noteq> 0 \<and> 2 ^ 63 - 1 < \<bar>R\<bar> * \<bar>B\<bar>")
      case True
      then have "B \<noteq> 0" by (simp add: B0)
      then have "\<bar>B\<bar> ^ 1 \<le> \<bar>B\<bar> ^ n" using npos by (rule abs_pow_mono)
      then have "\<bar>R\<bar> * \<bar>B\<bar> \<le> \<bar>R\<bar> * \<bar>B\<bar> ^ n"
        by (simp add: mult_left_mono)
      with True have "\<not> \<bar>R * B ^ n\<bar> \<le> 2 ^ 63 - 1"
        by (simp add: abs_mult power_abs)
      with True step show ?thesis by (simp add: B_def R_def n_def)
    next
      case noA: False
      define result' where "result' = (if odd n then result * base else result)"
      define R' where "R' = (if odd n then R * B else R)"
      have fitsR: "\<bar>R'\<bar> \<le> 2 ^ 63 - 1"
      proof (cases "odd n")
        case True
        with noA have "base = 0 \<or> \<bar>R\<bar> * \<bar>B\<bar> \<le> 2 ^ 63 - 1" by auto
        then show ?thesis using True by (auto simp: R'_def B0 abs_mult)
      next
        case False
        then show ?thesis using not_MIN_abs [OF rMIN] by (simp add: R'_def R_def)
      qed
      have sR': "sint result' = R'"
        using fitsR by (auto simp: result'_def R'_def R_def B_def sint_mult_ll)
      have rMIN': "result' \<noteq> LLONG_MIN"
        using fitsR sR' abs_fits_not_MIN by blast
      show ?thesis
      proof (cases "n div 2 \<noteq> 0 \<and> base \<noteq> 0 \<and> 2 ^ 63 - 1 < \<bar>B\<bar> * \<bar>B\<bar>")
        case True
        then have Bnz: "B \<noteq> 0" by (simp add: B0)
        with inv have "R \<noteq> 0" by (simp add: B0 R0)
        then have R1: "1 \<le> \<bar>R\<bar>" by simp
        from True have "2 \<le> n" by auto
        with Bnz have "\<bar>B\<bar> ^ 2 \<le> \<bar>B\<bar> ^ n" by (rule abs_pow_mono)
        with True have "2 ^ 63 - 1 < \<bar>B\<bar> ^ n" by (simp add: power2_eq_square)
        moreover have "\<bar>B\<bar> ^ n \<le> \<bar>R\<bar> * \<bar>B\<bar> ^ n"
          using R1 by (simp add: mult_le_cancel_right1) 
        ultimately have "\<not> \<bar>R * B ^ n\<bar> \<le> 2 ^ 63 - 1"
          by (simp add: abs_mult power_abs)
        with True noA step show ?thesis by (simp add: B_def R_def n_def)
      next
        case noB: False
        define base' where "base' = (if n div 2 \<noteq> 0 then base * base else base)"
        define B' where "B' = (if n div 2 \<noteq> 0 then B * B else B)"
        have fitsB: "\<bar>B'\<bar> \<le> 2 ^ 63 - 1"
        proof (cases "n div 2 \<noteq> 0")
          case True
          with noB have "base = 0 \<or> \<bar>B\<bar> * \<bar>B\<bar> \<le> 2 ^ 63 - 1" by auto
          then show ?thesis using True by (auto simp: B'_def B0 abs_mult)
        next
          case False
          then show ?thesis using not_MIN_abs [OF bMIN] by (simp add: B'_def B_def)
        qed
        have sB': "sint base' = B'"
          using fitsB by (auto simp: base'_def B'_def B_def sint_mult_ll)
        have bMIN': "base' \<noteq> LLONG_MIN"
          using fitsB sB' abs_fits_not_MIN by blast
        have inv': "result' \<noteq> 0 \<or> base' = 0"
        proof (cases "B = 0")
          case True
          then have "B' = 0" by (simp add: B'_def)
          with sB' have "sint base' = 0" by simp
          then have "base' = 0" by (simp add: signed_eq_0_iff)
          then show ?thesis by simp
        next
          case False
          with inv have "R \<noteq> 0" by (simp add: B0 R0)
          with False have "R' \<noteq> 0" by (simp add: R'_def)
          with sR' have "sint result' \<noteq> 0" by simp
          then have "result' \<noteq> 0" by (simp add: signed_eq_0_iff)
          then show ?thesis by simp
        qed
        have lt: "unat (drop_bit 1 e) < unat e"
          using npos by (simp add: exp_shift_Suc n_def)
        have IH: "safe_pow_loop base' (drop_bit 1 e) result' =
            (if \<bar>R' * B' ^ (n div 2)\<bar> \<le> 2 ^ 63 - 1
             then Some (word_of_int (R' * B' ^ (n div 2))) else None)"
          using less.hyps [OF lt bMIN' rMIN' inv'] by (simp add: sR' sB' exp_shift_Suc n_def)
        have eq: "R' * B' ^ (n div 2) = R * B ^ n"
        proof (cases "n div 2 = 0")
          case True
          with npos have "n = 1" by auto
          then show ?thesis by (simp add: R'_def B'_def)
        next
          case False
          then show ?thesis
            using pow_split [of B n] by (simp add: R'_def B'_def)
        qed
        have "safe_pow_loop base e result
            = safe_pow_loop base' (drop_bit 1 e) result'"
          by (simp only: step noA noB if_False base'_def result'_def)
        with IH eq show ?thesis by (simp add: B_def R_def n_def)
      qed
    qed
  qed
qed

lemma safe_pow_ll_correct:
  assumes "a \<noteq> LLONG_MIN"
  shows "safe_pow_ll a b =
     (if sint b < 0 \<or> 2 ^ 63 - 1 < \<bar>sint a ^ nat (sint b)\<bar> then None
      else Some (word_of_int (sint a ^ nat (sint b))))"
proof (cases "b <s 0")
  case True
  then show ?thesis by (simp add: safe_pow_ll_def word_sless_alt)
next
  case False
  then have nn: "\<not> sint b < 0" by (simp add: word_sless_alt)
  have n: "nat (sint b) = unat b" using sint_nonneg_unat [OF False] by simp
  have one: "(1::llong) \<noteq> LLONG_MIN" by (simp add: LLONG_MIN_def)
  have "safe_pow_loop a b 1 =
     (if \<bar>sint (1::llong) * sint a ^ unat b\<bar> \<le> 2 ^ 63 - 1
      then Some (word_of_int (sint (1::llong) * sint a ^ unat b)) else None)"
    by (rule safe_pow_loop_correct [OF assms one]) simp
  with False nn n show ?thesis
    by (auto simp: safe_pow_ll_def)
qed

lemma safe_pow_ll_zero: "safe_pow_ll a 0 = Some 1"
proof -
  have "safe_pow_loop a 0 1 = Some 1"
    by (subst safe_pow_loop.simps) simp
  then show ?thesis by (simp add: safe_pow_ll_def)
qed

subsection \<open>Emitting operators\<close>

lemma tokens_add_op: "tokens_add toks [c] = (if length toks \<ge> MAX_TOKENS then None else Some (toks @ [[c]]))"
  by (simp add: tokens_add_def MAX_TOKEN_LEN_def)

lemma pop_ops_char:
  "pop_ops op ops toks =
     (let popped = takeWhile (spec_pop_condition op) ops in
      if popped = [] \<or> length toks + length popped \<le> MAX_TOKENS
      then Inr (dropWhile (spec_pop_condition op) ops, toks @ map (\<lambda>c. [c]) popped)
      else Inl TooManyTokens)"
proof (induction ops arbitrary: toks)
  case Nil
  then show ?case by simp
next
  case (Cons t ops)
  show ?case
  proof (cases "spec_pop_condition op t")
    case False
    then show ?thesis by (auto simp: spec_pop_condition_def Let_def)
  next
    case True
    then have op: "is_operator t"
      and cond: "precedence t > precedence op \<or> (precedence t = precedence op \<and> \<not> is_right_assoc op)"
      by (auto simp: spec_pop_condition_def)
    show ?thesis
    proof (cases "length toks \<ge> MAX_TOKENS")
      case True
      with op cond \<open>spec_pop_condition op t\<close> show ?thesis
        by (simp add: tokens_add_op Let_def)
    next
      case False
      with op cond \<open>spec_pop_condition op t\<close> show ?thesis
        by (simp add: tokens_add_op Let_def Cons.IH)
    qed
  qed
qed

lemma division_examples:
  "infix_to_postfix ''5/0'' = Inr [''5'', ''0'', ''/'']
   \<and> evaluate_postfix [''5'', ''0'', ''/''] = Inl DivisionByZero
   \<and> infix_to_postfix ''5%0'' = Inr [''5'', ''0'', ''%'']
   \<and> evaluate_postfix [''5'', ''0'', ''%''] = Inl ModuloByZero"
  by code_simp

lemma power_overflow_example:
  "infix_to_postfix ''2^100'' = Inr [''2'', ''100'', ''^'']
   \<and> evaluate_postfix [''2'', ''100'', ''^''] = Inl InvalidOrOverflowExp"
  by code_simp

lemma zero_concrete:
  "infix_to_postfix ''0^0'' = Inr [''0'', ''0'', ''^'']
   \<and> evaluate_postfix [''0'', ''0'', ''^''] = Inr 1"
  by code_simp

subsection \<open>The scan as an iteration\<close>

lemma read_digits_char:
  "read_digits s buf =
     (if takeWhile isdigit s \<noteq> [] \<and> length buf + length (takeWhile isdigit s) \<ge> MAX_TOKEN_LEN
      then Inl NumberTokenTooLong
      else Inr (buf @ takeWhile isdigit s, dropWhile isdigit s))"
  by (induction s buf rule: read_digits.induct) auto

lemma scan_unfold:
  assumes "c \<noteq> CHR 0x00"
  shows "scan (c # cs) ops toks eo =
     (case scan_step c cs ops toks eo of
        Inl e \<Rightarrow> Inl e
      | Inr (rest, ops', toks', eo') \<Rightarrow> scan rest ops' toks' eo')"
proof -
  consider (space) "isspace c"
    | (digit) "\<not> isspace c" "isdigit c"
    | (lparen) "\<not> isspace c" "\<not> isdigit c" "c = CHR ''(''"
    | (rparen) "\<not> isspace c" "\<not> isdigit c" "c \<noteq> CHR ''(''" "c = CHR '')''"
    | (oper) "\<not> isspace c" "\<not> isdigit c" "c \<noteq> CHR ''(''" "c \<noteq> CHR '')''" "is_operator c"
    | (other) "\<not> isspace c" "\<not> isdigit c" "c \<noteq> CHR ''(''" "c \<noteq> CHR '')''" "\<not> is_operator c"
    by blast
  then show ?thesis
  proof cases
    case space
    with assms show ?thesis
      by (subst scan.simps) (simp add: scan_step_def)
  next
    case digit
    with assms show ?thesis
      by (subst scan.simps)
        (simp add: scan_step_def del: read_digits.simps split: sum.split prod.split option.split)
  next
    case lparen
    with assms show ?thesis
      by (subst scan.simps) (simp add: scan_step_def split: option.split)
  next
    case rparen
    with assms show ?thesis
      by (subst scan.simps)
        (simp add: scan_step_def split: sum.split prod.split)
  next
    case oper
    define bad where "bad = (\<not> (c = CHR ''-'' \<and> eo) \<and> eo \<and> c \<noteq> CHR ''u'')"
    define op where "op = (if c = CHR ''-'' \<and> eo then CHR ''u'' else c)"
    have L: "scan (c # cs) ops toks eo =
       (if bad then Inl UnexpectedOperator
        else (case pop_ops op ops toks of
                Inl e \<Rightarrow> Inl e
              | Inr (ops', toks') \<Rightarrow>
                  (case cs_push ops' op of
                     None \<Rightarrow> Inl OperatorStackOverflow
                   | Some ops'' \<Rightarrow> scan cs ops'' toks' (op \<noteq> CHR ''u''))))"
      unfolding bad_def op_def using oper assms
      by (subst scan.simps) (simp only: if_False if_True Let_def)
    have R: "scan_step c cs ops toks eo =
       (if bad then Inl UnexpectedOperator
        else (case pop_ops op ops toks of
                Inl e \<Rightarrow> Inl e
              | Inr (ops', toks') \<Rightarrow>
                  (case cs_push ops' op of
                     None \<Rightarrow> Inl OperatorStackOverflow
                   | Some ops'' \<Rightarrow> Inr (cs, ops'', toks', op \<noteq> CHR ''u''))))"
      unfolding bad_def op_def scan_step_def using oper
      by (simp only: if_False if_True Let_def)
    show ?thesis
      unfolding L R by (simp split: sum.split prod.split option.split)
  next
    case other
    with assms show ?thesis
      by (subst scan.simps) (simp add: scan_step_def)
  qed
qed

lemma step_space: "isspace c \<Longrightarrow> scan_step c cs ops toks eo = Inr (cs, ops, toks, eo)"
  by (simp add: scan_step_def)

lemma step_digit:
  "\<not> isspace c \<Longrightarrow> isdigit c \<Longrightarrow> scan_step c cs ops toks eo = emit_number c cs ops toks"
  by (simp add: scan_step_def emit_number_def read_digits_char tokens_add_def MAX_TOKEN_LEN_def
      del: read_digits.simps)

lemma step_lparen:
  "scan_step (CHR ''('') cs ops toks eo =
     (if length ops \<ge> MAX_TOKENS then Inl OperatorStackOverflow
      else Inr (cs, CHR ''('' # ops, toks, True))"
  by (simp add: scan_step_def isspace_def isdigit_def cs_push_def)

lemma step_rparen:
  "scan_step (CHR '')'') cs ops toks eo =
     (case pop_to_paren ops toks of
        Inl e \<Rightarrow> Inl e
      | Inr (ops', toks') \<Rightarrow> Inr (cs, ops', toks', False))"
  by (simp add: scan_step_def isspace_def isdigit_def)

lemma operator_class:
  "is_operator c \<Longrightarrow> \<not> isspace c \<and> \<not> isdigit c \<and> c \<noteq> CHR ''('' \<and> c \<noteq> CHR '')'' \<and> c \<noteq> CHR 0x00"
  by (auto simp: is_operator_def isspace_def isdigit_def)

lemma step_operator:
  assumes "is_operator c"
  shows "scan_step c cs ops toks eo =
     (if eo \<and> c \<noteq> CHR ''-'' \<and> c \<noteq> CHR ''u'' then Inl UnexpectedOperator
      else (case pop_ops (if c = CHR ''-'' \<and> eo then CHR ''u'' else c) ops toks of
              Inl e \<Rightarrow> Inl e
            | Inr (ops', toks') \<Rightarrow>
                if length ops' \<ge> MAX_TOKENS then Inl OperatorStackOverflow
                else Inr (cs, (if c = CHR ''-'' \<and> eo then CHR ''u'' else c) # ops', toks',
                          (if c = CHR ''-'' \<and> eo then CHR ''u'' else c) \<noteq> CHR ''u'')))"
proof -
  note cl = operator_class [OF assms]
  define op where "op = (if c = CHR ''-'' \<and> eo then CHR ''u'' else c)"
  have "scan_step c cs ops toks eo =
     (if \<not> (c = CHR ''-'' \<and> eo) \<and> eo \<and> c \<noteq> CHR ''u'' then Inl UnexpectedOperator
      else (case pop_ops op ops toks of
              Inl e \<Rightarrow> Inl e
            | Inr (ops', toks') \<Rightarrow>
                (case cs_push ops' op of
                   None \<Rightarrow> Inl OperatorStackOverflow
                 | Some ops'' \<Rightarrow> Inr (cs, ops'', toks', op \<noteq> CHR ''u''))))"
    unfolding scan_step_def op_def using cl assms by (simp only: if_False if_True Let_def)
  also have "\<dots> =
     (if eo \<and> c \<noteq> CHR ''-'' \<and> c \<noteq> CHR ''u'' then Inl UnexpectedOperator
      else (case pop_ops op ops toks of
              Inl e \<Rightarrow> Inl e
            | Inr (ops', toks') \<Rightarrow>
                if length ops' \<ge> MAX_TOKENS then Inl OperatorStackOverflow
                else Inr (cs, op # ops', toks', op \<noteq> CHR ''u'')))"
    by (cases "pop_ops op ops toks") (auto simp: cs_push_def)
  finally show ?thesis unfolding op_def .
qed

lemma step_other:
  "\<not> isspace c \<Longrightarrow> \<not> isdigit c \<Longrightarrow> c \<noteq> CHR ''('' \<Longrightarrow> c \<noteq> CHR '')'' \<Longrightarrow> \<not> is_operator c
    \<Longrightarrow> scan_step c cs ops toks eo = Inl (InvalidCharacter c)"
  by (simp add: scan_step_def)

lemma step_cases [case_names space digit lparen rparen oper other]:
  assumes "isspace c \<Longrightarrow> P"
    and "\<not> isspace c \<Longrightarrow> isdigit c \<Longrightarrow> P"
    and "c = CHR ''('' \<Longrightarrow> P"
    and "c = CHR '')'' \<Longrightarrow> P"
    and "is_operator c \<Longrightarrow> P"
    and "\<not> isspace c \<Longrightarrow> \<not> isdigit c \<Longrightarrow> c \<noteq> CHR ''('' \<Longrightarrow> c \<noteq> CHR '')'' \<Longrightarrow> \<not> is_operator c \<Longrightarrow> P"
  shows P
  using assms by blast

lemma step_operator_op:
  assumes "is_operator c" and "op = (if c = CHR ''-'' \<and> eo then CHR ''u'' else c)"
  shows "scan_step c cs ops toks eo =
     (if eo \<and> c \<noteq> CHR ''-'' \<and> c \<noteq> CHR ''u'' then Inl UnexpectedOperator
      else (case pop_ops op ops toks of
              Inl e \<Rightarrow> Inl e
            | Inr (ops', toks') \<Rightarrow>
                if length ops' \<ge> MAX_TOKENS then Inl OperatorStackOverflow
                else Inr (cs, op # ops', toks', op \<noteq> CHR ''u'')))"
  unfolding assms(2) by (rule step_operator [OF assms(1)])

lemma scan_step_rest:
  assumes "scan_step c cs ops toks eo = Inr (rest, ops', toks', eo')"
  shows "length rest \<le> length cs \<and> set rest \<subseteq> set cs"
proof (cases c rule: step_cases)
  case space
  with assms show ?thesis by (simp add: step_space)
next
  case digit
  with assms have "rest = dropWhile isdigit cs"
    by (simp add: step_digit emit_number_def split: if_splits)
  then show ?thesis
    by (auto simp: length_dropWhile_le dest: set_dropWhileD)
next
  case lparen
  with assms show ?thesis by (simp add: step_lparen split: if_splits)
next
  case rparen
  with assms show ?thesis
    by (cases "pop_to_paren ops toks") (auto simp: step_rparen)
next
  case oper
  define op where "op = (if c = CHR ''-'' \<and> eo then CHR ''u'' else c)"
  note st = step_operator_op [OF oper op_def]
  from assms show ?thesis
    unfolding st by (cases "pop_ops op ops toks") (auto split: if_splits)
next
  case other
  with assms show ?thesis by (simp add: step_other)
qed

lemma scan_step_append:
  assumes "\<not> isdigit x"
  shows "scan_step c (cs @ x # ys) ops toks eo =
     (case scan_step c cs ops toks eo of
        Inl e \<Rightarrow> Inl e
      | Inr (rest, st) \<Rightarrow> Inr (rest @ x # ys, st))"
proof (cases c rule: step_cases)
  case space
  then show ?thesis by (simp add: step_space)
next
  case digit
  then show ?thesis
    using assms
    by (simp add: step_digit emit_number_def takeWhile_tail dropWhile_append3)
next
  case lparen
  then show ?thesis by (simp add: step_lparen)
next
  case rparen
  then show ?thesis
    by (cases "pop_to_paren ops toks") (auto simp: step_rparen)
next
  case oper
  define op where "op = (if c = CHR ''-'' \<and> eo then CHR ''u'' else c)"
  note st = step_operator_op [OF oper op_def]
  show ?thesis
    unfolding st by (cases "pop_ops op ops toks") (auto split: if_splits)
next
  case other
  then show ?thesis by (simp add: step_other)
qed

lemma scan_append:
  assumes "CHR 0x00 \<notin> set pre" and "\<not> isdigit x"
  shows "scan (pre @ x # ys) ops toks eo =
     (case scan pre ops toks eo of
        Inl e \<Rightarrow> Inl e
      | Inr (ops', toks', eo') \<Rightarrow> scan (x # ys) ops' toks' eo')"
  using assms(1)
proof (induction "length pre" arbitrary: pre ops toks eo rule: less_induct)
  case less
  show ?case
  proof (cases pre)
    case Nil
    then show ?thesis by (simp add: scan.simps(1))
  next
    case (Cons c cs)
    with less.prems have c: "c \<noteq> CHR 0x00" and cs: "CHR 0x00 \<notin> set cs" by auto
    have L: "scan (pre @ x # ys) ops toks eo =
       (case scan_step c (cs @ x # ys) ops toks eo of
          Inl e \<Rightarrow> Inl e
        | Inr (rest, ops', toks', eo') \<Rightarrow> scan rest ops' toks' eo')"
      unfolding Cons append_Cons by (rule scan_unfold [OF c])
    have R: "scan pre ops toks eo =
       (case scan_step c cs ops toks eo of
          Inl e \<Rightarrow> Inl e
        | Inr (rest, ops', toks', eo') \<Rightarrow> scan rest ops' toks' eo')"
      unfolding Cons by (rule scan_unfold [OF c])
    show ?thesis
    proof (cases "scan_step c cs ops toks eo")
      case (Inl e)
      then show ?thesis
        unfolding L R scan_step_append [OF assms(2)] by simp
    next
      case (Inr p)
      obtain rest ops1 toks1 eo1 where p: "p = (rest, ops1, toks1, eo1)"
        by (cases p)
      from Inr p scan_step_rest have "length rest \<le> length cs" "set rest \<subseteq> set cs"
        by blast+
      with cs Cons have "length rest < length pre" "CHR 0x00 \<notin> set rest" by auto
      then have "scan (rest @ x # ys) ops1 toks1 eo1 =
         (case scan rest ops1 toks1 eo1 of
            Inl e \<Rightarrow> Inl e
          | Inr (ops', toks', eo') \<Rightarrow> scan (x # ys) ops' toks' eo')"
        by (rule less.hyps)
      then show ?thesis
        unfolding L R scan_step_append [OF assms(2)] Inr p by simp
    qed
  qed
qed

subsection \<open>Invariants of the scan\<close>

lemma toks_ok_snoc_op: "toks_ok toks \<Longrightarrow> is_operator c \<Longrightarrow> toks_ok (toks @ [[c]])"
  by (simp add: toks_ok_def operator_token_def)

lemma pop_to_paren_inv:
  "pop_to_paren ops toks = Inr (ops', toks') \<Longrightarrow> ops_ok ops \<Longrightarrow> toks_ok toks \<Longrightarrow>
     ops_ok ops' \<and> toks_ok toks' \<and> length ops' + length toks' < length ops + length toks"
proof (induction ops arbitrary: toks)
  case Nil
  then show ?case by simp
next
  case (Cons t ops)
  show ?case
  proof (cases "t = CHR ''(''")
    case True
    with Cons.prems show ?thesis by (auto simp: ops_ok_def)
  next
    case False
    with Cons.prems(2) have op: "is_operator t" and ok: "ops_ok ops"
      by (auto simp: ops_ok_def)
    from False Cons.prems(1) have len: "\<not> length toks \<ge> MAX_TOKENS"
      and rec: "pop_to_paren ops (toks @ [[t]]) = Inr (ops', toks')"
      by (auto simp: tokens_add_op split: if_splits)
    from Cons.IH [OF rec ok toks_ok_snoc_op [OF Cons.prems(3) op]]
    show ?thesis by auto
  qed
qed

lemma pop_to_paren_none:
  "CHR ''('' \<notin> set ops \<Longrightarrow> length toks + length ops \<le> MAX_TOKENS \<Longrightarrow>
     pop_to_paren ops toks = Inl MismatchedParentheses"
  by (induction ops arbitrary: toks) (auto simp: tokens_add_op)

lemma pop_ops_inv:
  assumes "pop_ops op ops toks = Inr (ops', toks')" "ops_ok ops" "toks_ok toks"
  shows "ops_ok ops' \<and> toks_ok toks' \<and> length ops' + length toks' = length ops + length toks"
proof -
  let ?P = "spec_pop_condition op"
  from assms(1) have o: "ops' = dropWhile ?P ops"
    and t: "toks' = toks @ map (\<lambda>c. [c]) (takeWhile ?P ops)"
    by (auto simp: pop_ops_char Let_def split: if_splits)
  have "set ops' \<subseteq> set ops" unfolding o by (auto dest: set_dropWhileD)
  with assms(2) have "ops_ok ops'" by (auto simp: ops_ok_def list_all_iff)
  moreover have "\<forall>c \<in> set (takeWhile ?P ops). is_operator c"
    by (auto dest: set_takeWhileD simp: spec_pop_condition_def)
  with assms(3) have "toks_ok toks'"
    unfolding t by (auto simp: toks_ok_def list_all_iff operator_token_def)
  moreover have "length (takeWhile ?P ops) + length (dropWhile ?P ops) = length ops"
    by (metis length_append takeWhile_dropWhile_id)
  then have "length ops' + length toks' = length ops + length toks"
    unfolding o t by simp
  ultimately show ?thesis by simp
qed

lemma drain_paren:
  "CHR ''('' \<in> set ops \<Longrightarrow> length toks + length ops \<le> MAX_TOKENS \<Longrightarrow>
     drain ops toks = Inl MismatchedParentheses"
  by (induction ops arbitrary: toks) (auto simp: tokens_add_op)

lemma drain_ok:
  "CHR ''('' \<notin> set ops \<Longrightarrow> ops_ok ops \<Longrightarrow> length toks + length ops \<le> MAX_TOKENS \<Longrightarrow>
     drain ops toks = Inr (toks @ map (\<lambda>c. [c]) ops)"
proof (induction ops arbitrary: toks)
  case Nil
  then show ?case by simp
next
  case (Cons t ops)
  then have "is_operator t" by (auto simp: ops_ok_def)
  then have "t \<noteq> CHR '')''" using operator_class by blast
  with Cons show ?case by (auto simp: tokens_add_op ops_ok_def)
qed

lemma drain_inv:
  "drain ops toks = Inr toks' \<Longrightarrow> ops_ok ops \<Longrightarrow> toks_ok toks \<Longrightarrow> toks_ok toks'"
proof (induction ops arbitrary: toks)
  case Nil
  then show ?case by simp
next
  case (Cons t ops)
  from Cons.prems(1) have np: "t \<noteq> CHR ''(''" and len: "\<not> length toks \<ge> MAX_TOKENS"
    and rec: "drain ops (toks @ [[t]]) = Inr toks'"
    by (auto simp: tokens_add_op split: if_splits)
  from np Cons.prems(2) have op: "is_operator t" and ok: "ops_ok ops"
    by (auto simp: ops_ok_def)
  from Cons.IH [OF rec ok toks_ok_snoc_op [OF Cons.prems(3) op]] show ?case .
qed

lemma emit_number_token:
  assumes "isdigit c" "length (takeWhile isdigit (c # cs)) < MAX_TOKEN_LEN"
  shows "numeral_token (takeWhile isdigit (c # cs))"
  using assms by (simp add: numeral_token_def list_all_iff) (meson set_takeWhileD)

lemma scan_step_inv:
  assumes "scan_step c cs ops toks eo = Inr (rest, ops', toks', eo')" "ops_ok ops" "toks_ok toks"
  shows "ops_ok ops' \<and> toks_ok toks'
         \<and> length ops' + length toks' + length rest \<le> length ops + length toks + length cs + 1"
proof (cases c rule: step_cases)
  case space
  with assms show ?thesis by (simp add: step_space)
next
  case digit
  from assms(1) digit have a: "length (takeWhile isdigit (c # cs)) < MAX_TOKEN_LEN"
    and b: "rest = dropWhile isdigit cs" "ops' = ops" "toks' = toks @ [takeWhile isdigit (c # cs)]"
    by (auto simp: step_digit emit_number_def split: if_splits)
  from emit_number_token [OF digit(2) a] assms(2,3) b show ?thesis
    using length_dropWhile_le [of isdigit cs]
    by (simp add: toks_ok_def)
next
  case lparen
  with assms show ?thesis by (auto simp: step_lparen ops_ok_def split: if_splits)
next
  case rparen
  show ?thesis
  proof (cases "pop_to_paren ops toks")
    case (Inl e)
    with assms(1) rparen show ?thesis by (simp add: step_rparen)
  next
    case (Inr p)
    obtain o1 t1 where p: "p = (o1, t1)" by (cases p)
    from pop_to_paren_inv [OF Inr [unfolded p] assms(2,3)] assms(1) rparen Inr p
    show ?thesis by (auto simp: step_rparen)
  qed
next
  case oper
  define op where "op = (if c = CHR ''-'' \<and> eo then CHR ''u'' else c)"
  note st = step_operator_op [OF oper op_def]
  have opop: "is_operator op" using oper by (simp add: op_def is_operator_def)
  show ?thesis
  proof (cases "pop_ops op ops toks")
    case (Inl e)
    with assms(1) show ?thesis unfolding st by (simp split: if_splits)
  next
    case (Inr p)
    obtain o1 t1 where p: "p = (o1, t1)" by (cases p)
    from pop_ops_inv [OF Inr [unfolded p] assms(2,3)] assms(1) Inr p opop
    show ?thesis unfolding st by (auto simp: ops_ok_def split: if_splits)
  qed
next
  case other
  with assms show ?thesis by (simp add: step_other)
qed

lemma scan_inv:
  "scan s ops toks eo = Inr (ops', toks', eo') \<Longrightarrow> ops_ok ops \<Longrightarrow> toks_ok toks \<Longrightarrow>
     ops_ok ops' \<and> toks_ok toks' \<and> length ops' + length toks' \<le> length ops + length toks + length s"
proof (induction "length s" arbitrary: s ops toks eo rule: less_induct)
  case less
  show ?case
  proof (cases s)
    case Nil
    with less.prems show ?thesis by (simp add: scan.simps(1))
  next
    case (Cons c cs)
    show ?thesis
    proof (cases "c = CHR 0x00")
      case True
      with less.prems Cons show ?thesis by (simp add: scan.simps(2))
    next
      case False
      note un = scan_unfold [OF False, of cs ops toks eo]
      show ?thesis
      proof (cases "scan_step c cs ops toks eo")
        case (Inl e)
        with less.prems(1) Cons un show ?thesis by simp
      next
        case (Inr p)
        obtain rest o1 t1 e1 where p: "p = (rest, o1, t1, e1)" by (cases p)
        note si = scan_step_inv [OF Inr [unfolded p] less.prems(2,3)]
        from scan_step_rest [OF Inr [unfolded p]] Cons have lt: "length rest < length s" by simp
        from less.prems(1) Cons un Inr p have rec: "scan rest o1 t1 e1 = Inr (ops', toks', eo')"
          by simp
        from less.hyps [OF lt rec] si Cons show ?thesis by auto
      qed
    qed
  qed
qed

lemma scan_reachable:
  assumes "scan s [] [] True = Inr (ops, toks, eo)"
  shows "ops_ok ops \<and> toks_ok toks \<and> length ops + length toks \<le> length s"
  using scan_inv [OF assms] by (simp add: ops_ok_def toks_ok_def)

subsection \<open>Numerals read back by the evaluator\<close>

lemma strtoll_digits_all:
  "list_all isdigit t \<Longrightarrow>
     strtoll_digits t acc = (foldl (\<lambda>n c. n * 10 + (of_char c - 48)) acc t, [])"
  by (induction t arbitrary: acc) auto

lemma digit_class:
  "isdigit c \<Longrightarrow> \<not> isspace c \<and> c \<noteq> CHR ''-'' \<and> c \<noteq> CHR ''+'' \<and> \<not> is_operator c"
  by (auto simp: isdigit_def isspace_def is_operator_def)

lemma foldl_dec_nonneg:
  "list_all isdigit t \<Longrightarrow> 0 \<le> (acc::int) \<Longrightarrow>
     0 \<le> foldl (\<lambda>n c. n * 10 + (of_char c - 48)) acc t"
proof (induction t arbitrary: acc)
  case Nil
  then show ?case by simp
next
  case (Cons c t)
  then have "isdigit c" by simp
  then have "48 \<le> int (of_char c)" by (simp add: isdigit_def)
  then have "(0::int) \<le> of_char c - 48" by (simp add: of_nat_of_char)
  with Cons.prems have "0 \<le> acc * 10 + (of_char c - 48)" by simp
  with Cons show ?case by simp
qed

lemma strtoll_numeral:
  assumes "numeral_token t"
  shows "strtoll t =
     (if dec_value t > sint LLONG_MAX then Some (LLONG_MAX, True, [])
      else Some (word_of_int (dec_value t), False, []))"
proof -
  from assms obtain c r where t: "t = c # r" and c: "isdigit c" and all: "list_all isdigit t"
    by (cases t) (auto simp: numeral_token_def)
  note cl = digit_class [OF c]
  have sp: "dropWhile isspace t = t" using t cl by simp
  have sg: "strtoll_sign t = (False, t)" using t cl by (simp add: strtoll_sign_def)
  have dg: "strtoll_digits t 0 = (dec_value t, [])"
    using strtoll_digits_all [OF all, of 0] by (simp add: dec_value_def)
  have nn: "0 \<le> dec_value t"
    using foldl_dec_nonneg [OF all, of 0] by (simp add: dec_value_def)
  then have "\<not> dec_value t < sint LLONG_MIN" by (simp add: sint_LLONG_MIN)
  then show ?thesis
    unfolding strtoll_def sp sg using dg c by (simp add: t Let_def)
qed

lemma binary_result_not_invalid_number:
  "(if op = CHR ''+'' then Inr (a + b)
    else if op = CHR ''-'' then Inr (a - b)
    else if op = CHR ''*'' then Inr (a * b)
    else if op = CHR ''/'' then
      (if b = 0 then Inl DivisionByZero
       else (case ll_div a b of
               None \<Rightarrow> Inl UndefinedDivision
             | Some q \<Rightarrow> Inr q))
    else if op = CHR ''%'' then
      (if b = 0 then Inl ModuloByZero
       else (case ll_mod a b of
               None \<Rightarrow> Inl UndefinedDivision
             | Some q \<Rightarrow> Inr q))
    else if op = CHR ''^'' then
      (case safe_pow_ll a b of
         None \<Rightarrow> Inl InvalidOrOverflowExp
       | Some r \<Rightarrow> Inr r)
    else Inl UnknownOperator) \<noteq> Inl InvalidNumber"
proof -
  have d: "(case ll_div a b of None \<Rightarrow> Inl UndefinedDivision | Some q \<Rightarrow> Inr q)
             \<noteq> Inl InvalidNumber"
    by (cases "ll_div a b") simp_all
  have m: "(case ll_mod a b of None \<Rightarrow> Inl UndefinedDivision | Some q \<Rightarrow> Inr q)
             \<noteq> Inl InvalidNumber"
    by (cases "ll_mod a b") simp_all
  have p: "(case safe_pow_ll a b of None \<Rightarrow> Inl InvalidOrOverflowExp | Some r \<Rightarrow> Inr r)
             \<noteq> Inl InvalidNumber"
    by (cases "safe_pow_ll a b") simp_all
  show ?thesis
    using d m p by (simp only: if_split [of "\<lambda>x. x \<noteq> Inl InvalidNumber"]) simp
qed

lemma apply_op_not_invalid_number: "apply_op op stk \<noteq> Inl InvalidNumber"
proof (cases "op = CHR ''u''")
  case True
  show ?thesis
  proof (cases stk)
    case Nil
    with True show ?thesis by (simp add: apply_op_def)
  next
    case (Cons a s)
    with True show ?thesis by (cases "ns_push s (- a)") (simp_all add: apply_op_def)
  qed
next
  case False
  show ?thesis
  proof (cases stk)
    case Nil
    with False show ?thesis by (simp only: apply_op_def if_False list.case) simp
  next
    case outer: (Cons b s1)
    show ?thesis
    proof (cases s1)
      case Nil
      with outer False show ?thesis by (simp only: apply_op_def if_False list.case) simp
    next
      case (Cons a s)
      define r where "r = (if op = CHR ''+'' then Inr (a + b)
                    else if op = CHR ''-'' then Inr (a - b)
                    else if op = CHR ''*'' then Inr (a * b)
                    else if op = CHR ''/'' then
                      (if b = 0 then Inl DivisionByZero
                       else (case ll_div a b of
                               None \<Rightarrow> Inl UndefinedDivision
                             | Some q \<Rightarrow> Inr q))
                    else if op = CHR ''%'' then
                      (if b = 0 then Inl ModuloByZero
                       else (case ll_mod a b of
                               None \<Rightarrow> Inl UndefinedDivision
                             | Some q \<Rightarrow> Inr q))
                    else if op = CHR ''^'' then
                      (case safe_pow_ll a b of
                         None \<Rightarrow> Inl InvalidOrOverflowExp
                       | Some r \<Rightarrow> Inr r)
                    else Inl UnknownOperator)"
      have r: "r \<noteq> Inl InvalidNumber"
        unfolding r_def by (rule binary_result_not_invalid_number)
      have eq: "apply_op op stk
          = (case r of Inl e \<Rightarrow> Inl e
             | Inr v \<Rightarrow> (case ns_push s v of
                           None \<Rightarrow> Inl ValueStackOverflow
                         | Some s' \<Rightarrow> Inr s'))"
        unfolding r_def outer Cons by (simp only: apply_op_def False if_False list.case)
      show ?thesis
      proof (cases r)
        case (Inl e)
        with r eq show ?thesis by simp
      next
        case (Inr v)
        with eq show ?thesis by (cases "ns_push s v") simp_all
      qed
    qed
  qed
qed

lemma eval_loop_invalid_number:
  "eval_loop p stk = Inl InvalidNumber \<Longrightarrow> toks_ok p \<Longrightarrow>
     \<exists>t \<in> set p. numeral_token t \<and> dec_value t > sint LLONG_MAX"
proof (induction p arbitrary: stk)
  case Nil
  then show ?case by simp
next
  case (Cons t p)
  from Cons.prems(2) have ok: "toks_ok p" and tk: "operator_token t \<or> numeral_token t"
    by (simp_all add: toks_ok_def)
  show ?case
  proof (cases "length t = 1 \<and> is_operator (hd t)")
    case True
    show ?thesis
    proof (cases "apply_op (hd t) stk")
      case (Inl e)
      with True Cons.prems(1) apply_op_not_invalid_number show ?thesis by auto
    next
      case (Inr stk')
      with True Cons.prems(1) have "eval_loop p stk' = Inl InvalidNumber" by simp
      from Cons.IH [OF this ok] show ?thesis by auto
    qed
  next
    case False
    with tk have num: "numeral_token t" by (auto simp: operator_token_def)
    show ?thesis
    proof (cases "dec_value t > sint LLONG_MAX")
      case True
      with num show ?thesis by auto
    next
      case big: False
      with False Cons.prems(1) strtoll_numeral [OF num]
      obtain stk' where "eval_loop p stk' = Inl InvalidNumber"
        by (auto split: option.splits)
      from Cons.IH [OF this ok] show ?thesis by auto
    qed
  qed
qed

lemma infix_to_postfix_tokens:
  assumes "infix_to_postfix expr = Inr p"
  shows "toks_ok p"
proof -
  from assms obtain ops toks eo where sc: "scan expr [] [] True = Inr (ops, toks, eo)"
    and dr: "drain ops toks = Inr p"
    by (auto simp: infix_to_postfix_def split: sum.splits if_splits)
  from scan_reachable [OF sc] have "ops_ok ops" "toks_ok toks" by simp_all
  with dr show ?thesis by (rule drain_inv)
qed

subsection \<open>Errors raised at one character\<close>

lemma paren_class:
  "\<not> isdigit (CHR '')'') \<and> \<not> isdigit (CHR ''('') \<and> CHR '')'' \<noteq> CHR 0x00"
  by (simp add: isdigit_def)

lemma scan_rparen_unmatched:
  assumes "CHR ''('' \<notin> set ops" "length toks + length ops \<le> MAX_TOKENS"
  shows "scan (CHR '')'' # rest) ops toks eo = Inl MismatchedParentheses"
  using pop_to_paren_none [OF assms]
  by (simp add: scan_unfold step_rparen)

lemma scan_unexpected_operator:
  assumes "c \<in> set ''+*/%^''"
  shows "scan (c # rest) ops toks True = Inl UnexpectedOperator"
proof -
  from assms have op: "is_operator c" and ne: "c \<noteq> CHR ''-''" "c \<noteq> CHR ''u''"
    by (auto simp: is_operator_def)
  from operator_class [OF op] have "c \<noteq> CHR 0x00" by simp
  then show ?thesis
    using ne by (simp add: scan_unfold step_operator [OF op])
qed

lemma scan_invalid_character:
  assumes "c \<noteq> CHR 0x00" "\<not> isspace c" "\<not> isdigit c" "c \<notin> set ''+-*/%^()u''"
  shows "scan (c # rest) ops toks eo = Inl (InvalidCharacter c)"
proof -
  from assms(4) have "c \<noteq> CHR ''(''" "c \<noteq> CHR '')''" "\<not> is_operator c"
    by (auto simp: is_operator_def)
  with assms show ?thesis
    by (simp add: scan_unfold step_other)
qed

lemma paren_examples:
  "infix_to_postfix ''(1+2'' = Inl MismatchedParentheses
   \<and> infix_to_postfix ''1+2)'' = Inl MismatchedParentheses"
  by code_simp

lemma operator_examples:
  "infix_to_postfix ''*5'' = Inl UnexpectedOperator
   \<and> infix_to_postfix ''5+'' = Inl ExpressionEndsUnexpectedly"
  by code_simp

subsection \<open>Capacity of the token list\<close>

text \<open>
  Each token and each entry of the operator stack comes from a character of its own, so a
  text of fewer than \<open>MAX_EXPR\<close> characters never fills the token list. The text
  \<open>1^1^...\<close> is the shortest way to fill it: every \<open>^\<close> stays on the stack.
\<close>

lemma pop_to_paren_unmatched:
  "CHR ''('' \<notin> set ops \<Longrightarrow>
     pop_to_paren ops toks =
       (if ops = [] \<or> length toks + length ops \<le> MAX_TOKENS
        then Inl MismatchedParentheses else Inl TooManyTokens)"
  by (induction ops arbitrary: toks) (auto simp: tokens_add_op)

lemma drain_open:
  "CHR ''('' \<in> set ops \<Longrightarrow> ops_ok ops \<Longrightarrow>
     drain ops toks =
       (if takeWhile (\<lambda>c. c \<noteq> CHR ''('') ops = []
           \<or> length toks + length (takeWhile (\<lambda>c. c \<noteq> CHR ''('') ops) \<le> MAX_TOKENS
        then Inl MismatchedParentheses else Inl TooManyTokens)"
proof (induction ops arbitrary: toks)
  case Nil
  then show ?case by simp
next
  case (Cons t ops)
  show ?case
  proof (cases "t = CHR ''(''")
    case True
    then show ?thesis by simp
  next
    case False
    with Cons.prems have "is_operator t" "CHR ''('' \<in> set ops" "ops_ok ops"
      by (auto simp: ops_ok_def)
    moreover from this(1) have "t \<noteq> CHR '')''" using operator_class by blast
    ultimately show ?thesis
      using False Cons.IH [of "toks @ [[t]]"] by (auto simp: tokens_add_op)
  qed
qed

lemma drain_operators:
  "CHR ''('' \<notin> set ops \<Longrightarrow> ops_ok ops \<Longrightarrow>
     drain ops toks =
       (if ops = [] \<or> length toks + length ops \<le> MAX_TOKENS
        then Inr (toks @ map (\<lambda>c. [c]) ops) else Inl TooManyTokens)"
proof (induction ops arbitrary: toks)
  case Nil
  then show ?case by simp
next
  case (Cons t ops)
  then have "is_operator t" "CHR ''('' \<notin> set ops" "ops_ok ops"
    by (auto simp: ops_ok_def)
  moreover from this(1) have "t \<noteq> CHR '')''" using operator_class by blast
  ultimately show ?case
    using Cons.prems(1) Cons.IH [of "toks @ [[t]]"] by (auto simp: tokens_add_op)
qed

lemma scan_one_caret:
  assumes "length toks < MAX_TOKENS" "k < MAX_TOKENS"
  shows "scan (CHR ''1'' # CHR ''^'' # s) (replicate k (CHR ''^'')) toks eo
       = scan s (replicate (Suc k) (CHR ''^'')) (toks @ [''1'']) True"
proof -
  have d: "isdigit (CHR ''1'')" "\<not> isspace (CHR ''1'')" "\<not> isdigit (CHR ''^'')"
    by (simp_all add: isdigit_def isspace_def)
  have o: "is_operator (CHR ''^'')" by (simp add: is_operator_def)
  have "scan (CHR ''1'' # CHR ''^'' # s) (replicate k (CHR ''^'')) toks eo
      = scan (CHR ''^'' # s) (replicate k (CHR ''^'')) (toks @ [''1'']) False"
    using assms(1) d
    by (simp add: scan_unfold step_digit emit_number_def MAX_TOKEN_LEN_def)
  also have "pop_ops (CHR ''^'') (replicate k (CHR ''^'')) (toks @ [''1''])
      = Inr (replicate k (CHR ''^''), toks @ [''1''])"
    by (cases k) (simp_all add: is_operator_def precedence_def is_right_assoc_def)
  then have "scan (CHR ''^'' # s) (replicate k (CHR ''^'')) (toks @ [''1'']) False
      = scan s (replicate (Suc k) (CHR ''^'')) (toks @ [''1'']) True"
    using assms(2) by (simp add: scan_unfold step_operator [OF o])
  finally show ?thesis .
qed

lemma scan_caret_chain:
  "length toks + n \<le> MAX_TOKENS \<Longrightarrow> k + n \<le> MAX_TOKENS \<Longrightarrow>
     scan (concat (replicate n ''1^'') @ s) (replicate k (CHR ''^'')) toks True
       = scan s (replicate (k + n) (CHR ''^'')) (toks @ replicate n ''1'') True"
proof (induction n arbitrary: k toks)
  case 0
  then show ?case by simp
next
  case (Suc n)
  have "scan (concat (replicate (Suc n) ''1^'') @ s) (replicate k (CHR ''^'')) toks True
      = scan (concat (replicate n ''1^'') @ s) (replicate (Suc k) (CHR ''^'')) (toks @ [''1'']) True"
    using Suc.prems by (simp add: scan_one_caret)
  also have "\<dots> = scan s (replicate (Suc k + n) (CHR ''^'')) ((toks @ [''1'']) @ replicate n ''1'') True"
    using Suc.prems by (intro Suc.IH) simp_all
  also have "(toks @ [''1'']) @ replicate n ''1'' = toks @ replicate (Suc n) ''1''"
    by (simp add: replicate_app_Cons_same)
  finally show ?case by simp
qed

lemma long_chain_closed:
  "scan (concat (replicate 2048 ''1^'') @ ''1'') [] [] True
     = Inr (replicate 2048 (CHR ''^''), replicate 2049 ''1'', False)"
proof -
  have "scan (concat (replicate 2048 ''1^'') @ ''1'') (replicate 0 (CHR ''^'')) [] True
      = scan ''1'' (replicate (0 + 2048) (CHR ''^'')) ([] @ replicate 2048 ''1'') True"
    by (rule scan_caret_chain) (simp_all add: MAX_TOKENS_def)
  also have "\<dots> = Inr (replicate 2048 (CHR ''^''), replicate 2048 ''1'' @ [''1''], False)"
    by (simp add: scan_unfold step_digit emit_number_def MAX_TOKEN_LEN_def MAX_TOKENS_def
        isdigit_def isspace_def scan.simps(1))
  also have "replicate 2048 ''1'' @ [''1''] = replicate (Suc 2048) ''1''"
    by (simp only: replicate_append_same [symmetric] replicate_Suc)
  finally show ?thesis by simp
qed

lemma long_chain_open:
  "scan (concat (replicate 2049 ''1^'')) [] [] True
     = Inr (replicate 2049 (CHR ''^''), replicate 2049 ''1'', True)"
proof -
  have "scan (concat (replicate 2049 ''1^'') @ []) (replicate 0 (CHR ''^'')) [] True
      = scan [] (replicate (0 + 2049) (CHR ''^'')) ([] @ replicate 2049 ''1'') True"
    by (rule scan_caret_chain) (simp_all add: MAX_TOKENS_def)
  then show ?thesis by (simp add: scan.simps(1))
qed

lemma scan_capacity:
  assumes "scan s [] [] True = Inr (ops, toks, eo)" "length s < MAX_EXPR"
  shows "length toks + length ops \<le> MAX_TOKENS"
  using scan_reachable [OF assms(1)] assms(2) by (simp add: MAX_EXPR_def MAX_TOKENS_def)

section \<open>Worked examples\<close>

text \<open>
  Claim C1. The parser succeeds on \<open>2+3*4\<close>, \<open>2^3^2\<close> and \<open>-2^2\<close>, and the evaluator
  returns 14, 512 and 4 on its output: \<open>*\<close> is emitted before \<open>+\<close>, the two \<open>^\<close>
  group to the right, and the unary minus of \<open>-2^2\<close> is popped before \<open>^\<close> is
  pushed, so that the postfix tokens are 2, unary minus, 2, \<open>^\<close>, printed as
  \<open>2 ~ 2 ^\<close> and a newline.
\<close>

theorem worked_examples:
  "infix_to_postfix ''2+3*4'' = Inr [''2'', ''3'', ''4'', ''*'', ''+'']
   \<and> evaluate_postfix [''2'', ''3'', ''4'', ''*'', ''+''] = Inr 14
   \<and> infix_to_postfix ''2^3^2'' = Inr [''2'', ''3'', ''2'', ''^'', ''^'']
   \<and> evaluate_postfix [''2'', ''3'', ''2'', ''^'', ''^''] = Inr 512
   \<and> infix_to_postfix ''-2^2'' = Inr [''2'', ''u'', ''2'', ''^'']
   \<and> print_postfix [''2'', ''u'', ''2'', ''^''] = ''2 ~ 2 ^'' @ [CHR 0x0A]
   \<and> evaluate_postfix [''2'', ''u'', ''2'', ''^''] = Inr 4"
  by code_simp

section \<open>Operator precedence and associativity\<close>



section \<open>Checked arithmetic of the evaluator\<close>

text \<open>
  Claim C6 does not hold of the code. \<open>apply_op\<close> tests the divisor of \<open>/\<close> and of
  \<open>%\<close> against 0 only. On the line \<open>(-9223372036854775807-1)/-1\<close> the operands are
  \<open>LLONG_MIN\<close> and \<open>-1\<close>, a nonzero divisor: the quotient \<open>2^63\<close> is not representable,
  the division is undefined and the program is killed instead of pushing a quotient. The
  same holds of \<open>%\<close>.
\<close>

theorem division_overflow_is_undefined:
  "infix_to_postfix ''(-9223372036854775807-1)/-1''
     = Inr [''9223372036854775807'', ''u'', ''1'', ''-'', ''1'', ''u'', ''/'']
   \<and> eval_loop [''9223372036854775807'', ''u'', ''1'', ''-'', ''1'', ''u''] []
       = Inr [- 1, LLONG_MIN]
   \<and> evaluate_postfix [''9223372036854775807'', ''u'', ''1'', ''-'', ''1'', ''u'', ''/'']
       = Inl UndefinedDivision
   \<and> infix_to_postfix ''(-9223372036854775807-1)%-1''
       = Inr [''9223372036854775807'', ''u'', ''1'', ''-'', ''1'', ''u'', ''%'']
   \<and> evaluate_postfix [''9223372036854775807'', ''u'', ''1'', ''-'', ''1'', ''u'', ''%'']
       = Inl UndefinedDivision"
  by code_simp

text \<open>
  For every other pair of operands the code does what the claim says. On a stack that fits
  its array, a divisor 0 gives "Division by zero" and "Modulo by zero" (so do the inputs
  \<open>5/0\<close> and \<open>5%0\<close>); a nonzero divisor \<open>b\<close>, unless \<open>a\<close> is \<open>LLONG_MIN\<close> and \<open>b\<close>
  is \<open>-1\<close>, gives a quotient \<open>q\<close> and a remainder \<open>r\<close> whose signed values satisfy
  \<open>a = q * b + r\<close>, where \<open>q\<close> is the quotient of the magnitudes rounded down with the
  sign of the product, and \<open>r\<close> is smaller in magnitude than \<open>b\<close> and is zero or has the
  sign of \<open>a\<close>.
\<close>

lemma division_where_defined:
  assumes cap: "length (b # a # stk) \<le> MAX_TOKENS"
  shows "apply_op (CHR ''/'') (b # a # stk)
           = (if b = 0 then Inl DivisionByZero
              else if a = LLONG_MIN \<and> b = - 1 then Inl UndefinedDivision
              else Inr (word_of_int (sint a sdiv sint b) # stk))
     \<and> apply_op (CHR ''%'') (b # a # stk)
           = (if b = 0 then Inl ModuloByZero
              else if a = LLONG_MIN \<and> b = - 1 then Inl UndefinedDivision
              else Inr (word_of_int (sint a smod sint b) # stk))
     \<and> err_text DivisionByZero = ''Division by zero''
     \<and> err_text ModuloByZero = ''Modulo by zero''
     \<and> (b \<noteq> 0 \<and> \<not> (a = LLONG_MIN \<and> b = - 1) \<longrightarrow>
          sint (word_of_int (sint a sdiv sint b) :: llong)
            = sgn (sint a) * sgn (sint b) * (\<bar>sint a\<bar> div \<bar>sint b\<bar>)
          \<and> sint a = sint (word_of_int (sint a sdiv sint b) :: llong) * sint b
                     + sint (word_of_int (sint a smod sint b) :: llong)
          \<and> \<bar>sint (word_of_int (sint a smod sint b) :: llong)\<bar> < \<bar>sint b\<bar>
          \<and> (0 \<le> sint a \<longrightarrow> 0 \<le> sint (word_of_int (sint a smod sint b) :: llong))
          \<and> (sint a \<le> 0 \<longrightarrow> sint (word_of_int (sint a smod sint b) :: llong) \<le> 0))
     \<and> infix_to_postfix ''5/0'' = Inr [''5'', ''0'', ''/'']
     \<and> evaluate_postfix [''5'', ''0'', ''/''] = Inl DivisionByZero
     \<and> infix_to_postfix ''5%0'' = Inr [''5'', ''0'', ''%'']
     \<and> evaluate_postfix [''5'', ''0'', ''%''] = Inl ModuloByZero"
proof -
  from cap have len: "length stk < MAX_TOKENS" by simp
  have d: "apply_op (CHR ''/'') (b # a # stk)
           = (if b = 0 then Inl DivisionByZero
              else if a = LLONG_MIN \<and> b = - 1 then Inl UndefinedDivision
              else Inr (word_of_int (sint a sdiv sint b) # stk))"
    by (simp add: apply_op_def ll_div_def ns_push_ok [OF len])
  have m: "apply_op (CHR ''%'') (b # a # stk)
           = (if b = 0 then Inl ModuloByZero
              else if a = LLONG_MIN \<and> b = - 1 then Inl UndefinedDivision
              else Inr (word_of_int (sint a smod sint b) # stk))"
    by (simp add: apply_op_def ll_mod_def ns_push_ok [OF len])
  have exq: "sint (word_of_int (sint a sdiv sint b) :: llong)
      = sgn (sint a) * sgn (sint b) * (\<bar>sint a\<bar> div \<bar>sint b\<bar>)"
    if "b \<noteq> 0" "\<not> (a = LLONG_MIN \<and> b = - 1)"
    using sint_sdiv_ll [OF that] by (simp only: signed_divide_int_def)
  have exact: "sint a = sint (word_of_int (sint a sdiv sint b) :: llong) * sint b
                     + sint (word_of_int (sint a smod sint b) :: llong)"
    if "b \<noteq> 0" "\<not> (a = LLONG_MIN \<and> b = - 1)"
    using that by (simp add: sint_smod_ll sint_sdiv_ll sdiv_mult_smod_eq)
  have small: "\<bar>sint (word_of_int (sint a smod sint b) :: llong)\<bar> < \<bar>sint b\<bar>" if "b \<noteq> 0"
  proof -
    from that have nz: "sint b \<noteq> 0" by (simp add: signed_eq_0_iff)
    show ?thesis using smod_int_range [OF nz, of "sint a"] that
      by (simp add: sint_smod_ll) linarith
  qed
  have pos: "0 \<le> sint (word_of_int (sint a smod sint b) :: llong)" if "b \<noteq> 0" "0 \<le> sint a"
    using that smod_sign [of "sint a" "sint b"] by (simp add: sint_smod_ll)
  have neg: "sint (word_of_int (sint a smod sint b) :: llong) \<le> 0" if "b \<noteq> 0" "sint a \<le> 0"
    using that smod_sign [of "sint a" "sint b"] by (simp add: sint_smod_ll)
  show ?thesis
    by (intro conjI impI; (elim conjE)?)
      (rule d m exq exact small pos neg | assumption
        | simp add: division_examples)+
qed

lemma division_where_defined_example:
  "apply_op (CHR ''/'') [2, - 7] = Inr [- 3] \<and> apply_op (CHR ''%'') [2, - 7] = Inr [- 1]
   \<and> apply_op (CHR ''/'') [0, 5] = Inl DivisionByZero
   \<and> apply_op (CHR ''%'') [0, 5] = Inl ModuloByZero
   \<and> apply_op (CHR ''/'') [- 1, LLONG_MIN] = Inl UndefinedDivision
   \<and> apply_op (CHR ''%'') [- 1, LLONG_MIN] = Inl UndefinedDivision"
  by code_simp

text \<open>
  Claim C7, as amended. On a stack that fits its array, \<open>^\<close> fails with "Invalid or
  overflow in exponentiation" when the exponent \<open>b\<close> is negative. For every base \<open>a\<close>
  other than \<open>LLONG_MIN\<close> it also fails with this error when the magnitude of \<open>a^b\<close>
  exceeds \<open>LLONG_MAX\<close>, and otherwise pushes exactly \<open>a^b\<close>; \<open>2^100\<close> fails with this
  error. The check is on magnitudes, so a power equal to \<open>LLONG_MIN\<close> is refused although
  it is representable, as the counterexample \<open>(-2)^63\<close> shows. The base \<open>LLONG_MIN\<close> is
  left out: \<open>llabs\<close> overflows on it, and \<open>minimum_base_wraps\<close> shows its square
  evaluated to 0.
\<close>

theorem exponentiation_checked:
  assumes "length (b # a # stk) \<le> MAX_TOKENS"
  shows "(sint b < 0 \<longrightarrow> apply_op (CHR ''^'') (b # a # stk) = Inl InvalidOrOverflowExp)
         \<and> (a \<noteq> LLONG_MIN \<longrightarrow>
              apply_op (CHR ''^'') (b # a # stk) =
                (if sint b < 0 \<or> 2 ^ 63 - 1 < \<bar>sint a ^ nat (sint b)\<bar>
                 then Inl InvalidOrOverflowExp
                 else Inr (word_of_int (sint a ^ nat (sint b)) # stk)))
         \<and> (0 \<le> sint b \<and> \<bar>sint a ^ nat (sint b)\<bar> \<le> 2 ^ 63 - 1 \<longrightarrow>
              sint (word_of_int (sint a ^ nat (sint b)) :: llong) = sint a ^ nat (sint b))
         \<and> err_text InvalidOrOverflowExp = ''Invalid or overflow in exponentiation''
         \<and> infix_to_postfix ''2^100'' = Inr [''2'', ''100'', ''^'']
         \<and> evaluate_postfix [''2'', ''100'', ''^''] = Inl InvalidOrOverflowExp"
proof -
  from assms have len: "length stk < MAX_TOKENS" by simp
  have neg: "apply_op (CHR ''^'') (b # a # stk) = Inl InvalidOrOverflowExp" if "sint b < 0"
    using that by (simp add: apply_op_def safe_pow_ll_def word_sless_alt)
  have gen: "apply_op (CHR ''^'') (b # a # stk) =
           (if sint b < 0 \<or> 2 ^ 63 - 1 < \<bar>sint a ^ nat (sint b)\<bar>
            then Inl InvalidOrOverflowExp
            else Inr (word_of_int (sint a ^ nat (sint b)) # stk))" if "a \<noteq> LLONG_MIN"
    by (simp add: apply_op_def safe_pow_ll_correct [OF that] ns_push_ok [OF len])
  have fit: "sint (word_of_int (sint a ^ nat (sint b)) :: llong) = sint a ^ nat (sint b)"
    if "\<bar>sint a ^ nat (sint b)\<bar> \<le> 2 ^ 63 - 1"
    using that by (intro sint_of_int_ll) (simp_all add: abs_le_iff)
  show ?thesis
    by (intro conjI impI)
      (rule neg gen fit | assumption | simp add: power_overflow_example)+
qed

theorem exponentiation_checked_witness:
  "apply_op (CHR ''^'') [3, - 2, 7] = Inr [- 8, 7]
   \<and> apply_op (CHR ''^'') [- 1, 2] = Inl InvalidOrOverflowExp
   \<and> apply_op (CHR ''^'') [100, 2] = Inl InvalidOrOverflowExp"
  using exponentiation_checked [of 3 "- 2" "[7]"] exponentiation_checked [of "- 1" 2 "[]"]
    exponentiation_checked [of 100 2 "[]"]
  by (simp add: LLONG_MIN_def MAX_TOKENS_def)

theorem exponentiation_counterexample:
  "infix_to_postfix ''(-2)^63'' = Inr [''2'', ''u'', ''63'', ''^'']
   \<and> evaluate_postfix [''2'', ''u'', ''63'', ''^''] = Inl InvalidOrOverflowExp
   \<and> apply_op (CHR ''^'') [63, - 2] = Inl InvalidOrOverflowExp
   \<and> sint LLONG_MIN \<le> (- 2) ^ 63 \<and> (- 2) ^ 63 \<le> sint LLONG_MAX"
proof -
  have "infix_to_postfix ''(-2)^63'' = Inr [''2'', ''u'', ''63'', ''^'']
   \<and> evaluate_postfix [''2'', ''u'', ''63'', ''^''] = Inl InvalidOrOverflowExp
   \<and> apply_op (CHR ''^'') [63, - 2] = Inl InvalidOrOverflowExp"
    by code_simp
  then show ?thesis by (simp add: LLONG_MIN_def LLONG_MAX_def)
qed

lemma minimum_base_wraps:
  "infix_to_postfix ''(-9223372036854775807-1)^2''
     = Inr [''9223372036854775807'', ''u'', ''1'', ''-'', ''2'', ''^'']
   \<and> evaluate_postfix [''9223372036854775807'', ''u'', ''1'', ''-'', ''2'', ''^''] = Inr 0"
  by code_simp

text \<open>
  Claim C10, as amended. On a stack that fits its array, \<open>^\<close> with exponent 0 pushes 1 for
  every base, \<open>0^0\<close> included, and with exponent 1 it pushes the base \<open>a\<close> for every
  \<open>a\<close> other than \<open>LLONG_MIN\<close>. The counterexample is \<open>LLONG_MIN\<close> itself, computed as
  \<open>-9223372036854775807 - 1\<close>: its magnitude exceeds \<open>LLONG_MAX\<close> and the power fails.
\<close>

theorem exponent_zero_and_one:
  assumes "length (a # stk) < MAX_TOKENS"
  shows "apply_op (CHR ''^'') (0 # a # stk) = Inr (1 # stk)
         \<and> (a \<noteq> LLONG_MIN \<longrightarrow> apply_op (CHR ''^'') (1 # a # stk) = Inr (a # stk))
         \<and> infix_to_postfix ''0^0'' = Inr [''0'', ''0'', ''^'']
         \<and> evaluate_postfix [''0'', ''0'', ''^''] = Inr 1"
proof -
  from assms have len: "length stk < MAX_TOKENS" by simp
  have "apply_op (CHR ''^'') (0 # a # stk) = Inr (1 # stk)"
    by (simp add: apply_op_def safe_pow_ll_zero ns_push_ok [OF len])
  moreover have "apply_op (CHR ''^'') (1 # a # stk) = Inr (a # stk)" if "a \<noteq> LLONG_MIN"
    using not_MIN_abs [OF that]
    by (simp add: apply_op_def safe_pow_ll_correct [OF that] ns_push_ok [OF len])
  ultimately show ?thesis using zero_concrete by simp
qed

theorem exponent_zero_and_one_witness:
  "apply_op (CHR ''^'') [0, 0] = Inr [1] \<and> apply_op (CHR ''^'') [1, - 5, 4] = Inr [- 5, 4]
   \<and> apply_op (CHR ''^'') [0, LLONG_MIN] = Inr [1]"
  using exponent_zero_and_one [of 0 "[]"] exponent_zero_and_one [of "- 5" "[4]"]
    exponent_zero_and_one [of LLONG_MIN "[]"]
  by (simp add: LLONG_MIN_def MAX_TOKENS_def)

theorem exponent_one_counterexample:
  "evaluate_postfix [''9223372036854775807'', ''u'', ''1'', ''-''] = Inr LLONG_MIN
   \<and> evaluate_postfix [''9223372036854775807'', ''u'', ''1'', ''-'', ''1'', ''^'']
       = Inl InvalidOrOverflowExp
   \<and> apply_op (CHR ''^'') [1, LLONG_MIN] = Inl InvalidOrOverflowExp"
  by code_simp

section \<open>Postfix sequences that the evaluator rejects\<close>

text \<open>
  Claim C4 does not hold of the code. After a unary minus \<open>expect_operand\<close> becomes 0
  (the comment on that line says an operand is still expected), so \<open>-\<close> and \<open>(1+)\<close>
  are accepted and the evaluator underflows on their postfix; numerals and \<open>(\<close> are
  accepted whatever the flag says, so \<open>1 2\<close> and \<open>()\<close> are accepted and the evaluator
  ends with two values, or none, on its stack.
\<close>

theorem accepted_inputs_fail_evaluation:
  "infix_to_postfix ''-'' = Inr [''u'']
   \<and> evaluate_postfix [''u''] = Inl NotEnoughOperandsUnary
   \<and> infix_to_postfix ''(1+)'' = Inr [''1'', ''+'']
   \<and> evaluate_postfix [''1'', ''+''] = Inl NotEnoughOperandsBinary
   \<and> infix_to_postfix ''1 2'' = Inr [''1'', ''2'']
   \<and> evaluate_postfix [''1'', ''2''] = Inl ExtraOperands
   \<and> infix_to_postfix ''()'' = Inr []
   \<and> evaluate_postfix [] = Inl ExtraOperands"
  by code_simp

section \<open>Parse errors\<close>

text \<open>
  Claim C8, as amended. When the scan reaches a \<open>)\<close> while no \<open>(\<close> is on the operator
  stack, and when it ends while a \<open>(\<close> is on the operator stack, \<open>infix_to_postfix\<close>
  fails with "Mismatched parentheses", unless the token list overflows while the operators
  above are emitted, where it fails with "Too many tokens". The token list cannot overflow
  on a text of fewer than \<open>MAX_EXPR\<close> characters; \<open>(1+2\<close> and \<open>1+2)\<close> fail with
  "Mismatched parentheses". The counterexample is \<open>1^1^...^1)\<close> with 2049 numerals.
\<close>

theorem mismatched_parentheses:
  "(expr = pre @ CHR '')'' # rest \<and> CHR 0x00 \<notin> set pre
      \<and> scan pre [] [] True = Inr (ops, toks, eo) \<and> CHR ''('' \<notin> set ops
    \<longrightarrow> infix_to_postfix expr =
          (if ops = [] \<or> length toks + length ops \<le> MAX_TOKENS
           then Inl MismatchedParentheses else Inl TooManyTokens)
        \<and> (length expr < MAX_EXPR \<longrightarrow> infix_to_postfix expr = Inl MismatchedParentheses))
   \<and> (scan expr [] [] True = Inr (ops, toks, eo) \<and> CHR ''('' \<in> set ops
    \<longrightarrow> infix_to_postfix expr =
          (if takeWhile (\<lambda>c. c \<noteq> CHR ''('') ops = []
              \<or> length toks + length (takeWhile (\<lambda>c. c \<noteq> CHR ''('') ops) \<le> MAX_TOKENS
           then Inl MismatchedParentheses else Inl TooManyTokens)
        \<and> (length expr < MAX_EXPR \<longrightarrow> infix_to_postfix expr = Inl MismatchedParentheses))
   \<and> err_text MismatchedParentheses = ''Mismatched parentheses''
   \<and> infix_to_postfix ''(1+2'' = Inl MismatchedParentheses
   \<and> infix_to_postfix ''1+2)'' = Inl MismatchedParentheses"
proof -
  have a: "infix_to_postfix expr =
          (if ops = [] \<or> length toks + length ops \<le> MAX_TOKENS
           then Inl MismatchedParentheses else Inl TooManyTokens)"
    if e: "expr = pre @ CHR '')'' # rest" and nul: "CHR 0x00 \<notin> set pre"
      and sc: "scan pre [] [] True = Inr (ops, toks, eo)" and np: "CHR ''('' \<notin> set ops"
  proof -
    have "scan expr [] [] True = scan (CHR '')'' # rest) ops toks eo"
      unfolding e using scan_append [OF nul, of "CHR '')''" rest "[]" "[]" True] sc paren_class
      by simp
    also have "\<dots> = (if ops = [] \<or> length toks + length ops \<le> MAX_TOKENS
           then Inl MismatchedParentheses else Inl TooManyTokens)"
      using pop_to_paren_unmatched [OF np, of toks] by (simp add: scan_unfold step_rparen)
    finally show ?thesis by (simp add: infix_to_postfix_def)
  qed
  have a': "infix_to_postfix expr = Inl MismatchedParentheses"
    if e: "expr = pre @ CHR '')'' # rest" and nul: "CHR 0x00 \<notin> set pre"
      and sc: "scan pre [] [] True = Inr (ops, toks, eo)" and np: "CHR ''('' \<notin> set ops"
      and len: "length expr < MAX_EXPR"
  proof -
    from e len have "length pre < MAX_EXPR" by simp
    with sc have "length toks + length ops \<le> MAX_TOKENS" by (rule scan_capacity)
    with a [OF e nul sc np] show ?thesis by simp
  qed
  have b: "infix_to_postfix expr =
          (if takeWhile (\<lambda>c. c \<noteq> CHR ''('') ops = []
              \<or> length toks + length (takeWhile (\<lambda>c. c \<noteq> CHR ''('') ops) \<le> MAX_TOKENS
           then Inl MismatchedParentheses else Inl TooManyTokens)"
    if sc: "scan expr [] [] True = Inr (ops, toks, eo)" and p: "CHR ''('' \<in> set ops"
  proof -
    from scan_reachable [OF sc] have "ops_ok ops" by simp
    from drain_open [OF p this, of toks] sc show ?thesis
      by (simp add: infix_to_postfix_def)
  qed
  have b': "infix_to_postfix expr = Inl MismatchedParentheses"
    if sc: "scan expr [] [] True = Inr (ops, toks, eo)" and p: "CHR ''('' \<in> set ops"
      and len: "length expr < MAX_EXPR"
  proof -
    from sc len have "length toks + length ops \<le> MAX_TOKENS" by (rule scan_capacity)
    moreover have "length (takeWhile (\<lambda>c. c \<noteq> CHR ''('') ops) \<le> length ops"
      by (rule length_takeWhile_le)
    ultimately have "length toks + length (takeWhile (\<lambda>c. c \<noteq> CHR ''('') ops) \<le> MAX_TOKENS"
      by simp
    with b [OF sc p] show ?thesis by simp
  qed
  show ?thesis
    by (intro conjI impI; (elim conjE)?)
      (rule a a' b b' | assumption | simp add: paren_examples)+
qed

lemma scan_example_sum: "scan ''1+2'' [] [] True = Inr (''+'', [''1'', ''2''], False)"
  by code_simp
lemma scan_example_open: "scan ''(1+2'' [] [] True = Inr (''+('', [''1'', ''2''], False)"
  by code_simp

theorem mismatched_parentheses_witness:
  "infix_to_postfix (''1+2'' @ CHR '')'' # ''*3'') = Inl MismatchedParentheses
   \<and> infix_to_postfix ''(1+2'' = Inl MismatchedParentheses"
  using mismatched_parentheses [of "''1+2'' @ CHR '')'' # ''*3''" "''1+2''" "''*3''" "''+''"
      "[''1'', ''2'']" False]
    mismatched_parentheses [of "''(1+2''" "[]" "[]" "''+(''" "[''1'', ''2'']" False]
    scan_example_sum scan_example_open
  by (simp add: MAX_EXPR_def MAX_TOKENS_def)

theorem mismatched_parentheses_counterexample:
  "scan (concat (replicate 2048 ''1^'') @ ''1'') [] [] True
     = Inr (replicate 2048 (CHR ''^''), replicate 2049 ''1'', False)
   \<and> CHR ''('' \<notin> set (replicate 2048 (CHR ''^''))
   \<and> infix_to_postfix ((concat (replicate 2048 ''1^'') @ ''1'') @ '')'') = Inl TooManyTokens
   \<and> err_text TooManyTokens \<noteq> err_text MismatchedParentheses"
proof -
  have nul: "CHR 0x00 \<notin> set (concat (replicate 2048 ''1^'') @ ''1'')" by simp
  have "scan ((concat (replicate 2048 ''1^'') @ ''1'') @ '')'') [] [] True
      = scan '')'' (replicate 2048 (CHR ''^'')) (replicate 2049 ''1'') False"
    using scan_append [OF nul, of "CHR '')''" "[]" "[]" "[]" True] paren_class
    by (simp add: long_chain_closed)
  also have "\<dots> = Inl TooManyTokens"
    by (simp add: scan_unfold step_rparen pop_to_paren_unmatched MAX_TOKENS_def)
  finally have "infix_to_postfix ((concat (replicate 2048 ''1^'') @ ''1'') @ '')'')
      = Inl TooManyTokens"
    by (simp add: infix_to_postfix_def)
  then show ?thesis using long_chain_closed by simp
qed

text \<open>
  Claim C9, as amended. One of \<open>+ * / % ^\<close> read while \<open>expect_operand\<close> is set fails
  with "Unexpected operator". The end of the text reached with \<open>expect_operand\<close> set
  and no \<open>(\<close> left on the operator stack fails with "Expression ends unexpectedly",
  unless the token list overflows while the stack is drained, which cannot happen on a text
  of fewer than \<open>MAX_EXPR\<close> characters; \<open>*5\<close> and \<open>5+\<close> fail with these errors. The
  operator stack is drained before the flag is tested, so with a \<open>(\<close> left on it the
  error is "Mismatched parentheses": the counterexamples are the input \<open>(\<close>, and
  \<open>1^1^...1^\<close> with 2049 numerals for the overflow.
\<close>

theorem operator_context_errors:
  "(expr = pre @ c # rest \<and> CHR 0x00 \<notin> set pre \<and> c \<in> set ''+*/%^''
      \<and> scan pre [] [] True = Inr (ops, toks, True)
    \<longrightarrow> infix_to_postfix expr = Inl UnexpectedOperator)
   \<and> (scan expr [] [] True = Inr (ops, toks, True) \<and> CHR ''('' \<notin> set ops
    \<longrightarrow> infix_to_postfix expr =
          (if ops = [] \<or> length toks + length ops \<le> MAX_TOKENS
           then Inl ExpressionEndsUnexpectedly else Inl TooManyTokens)
        \<and> (length expr < MAX_EXPR \<longrightarrow> infix_to_postfix expr = Inl ExpressionEndsUnexpectedly))
   \<and> err_text UnexpectedOperator = ''Unexpected operator''
   \<and> err_text ExpressionEndsUnexpectedly = ''Expression ends unexpectedly''
   \<and> infix_to_postfix ''*5'' = Inl UnexpectedOperator
   \<and> infix_to_postfix ''5+'' = Inl ExpressionEndsUnexpectedly"
proof -
  have a: "infix_to_postfix expr = Inl UnexpectedOperator"
    if e: "expr = pre @ c # rest" and nul: "CHR 0x00 \<notin> set pre"
      and c: "c \<in> set ''+*/%^''" and sc: "scan pre [] [] True = Inr (ops, toks, True)"
  proof -
    from c have "\<not> isdigit c" by (auto simp: isdigit_def)
    then have "scan expr [] [] True = scan (c # rest) ops toks True"
      unfolding e using scan_append [OF nul, of c rest "[]" "[]" True] sc by simp
    also have "\<dots> = Inl UnexpectedOperator"
      using c by (rule scan_unexpected_operator)
    finally show ?thesis by (simp add: infix_to_postfix_def)
  qed
  have b: "infix_to_postfix expr =
          (if ops = [] \<or> length toks + length ops \<le> MAX_TOKENS
           then Inl ExpressionEndsUnexpectedly else Inl TooManyTokens)"
    if sc: "scan expr [] [] True = Inr (ops, toks, True)" and np: "CHR ''('' \<notin> set ops"
  proof -
    from scan_reachable [OF sc] have ok: "ops_ok ops" by simp
    from drain_operators [OF np ok, of toks] sc show ?thesis
      by (simp add: infix_to_postfix_def)
  qed
  have b': "infix_to_postfix expr = Inl ExpressionEndsUnexpectedly"
    if sc: "scan expr [] [] True = Inr (ops, toks, True)" and np: "CHR ''('' \<notin> set ops"
      and len: "length expr < MAX_EXPR"
  proof -
    from sc len have "length toks + length ops \<le> MAX_TOKENS" by (rule scan_capacity)
    with b [OF sc np] show ?thesis by simp
  qed
  show ?thesis
    by (intro conjI impI; (elim conjE)?)
      (rule a b b' | assumption | simp add: operator_examples)+
qed

lemma scan_example_plus: "scan ''2+'' [] [] True = Inr (''+'', [''2''], True)"
  by code_simp
lemma scan_example_times: "scan ''2+3*'' [] [] True = Inr (''*+'', [''2'', ''3''], True)"
  by code_simp

theorem operator_context_errors_witness:
  "infix_to_postfix (''2+'' @ CHR ''+'' # ''3'') = Inl UnexpectedOperator
   \<and> infix_to_postfix ''2+3*'' = Inl ExpressionEndsUnexpectedly"
  using operator_context_errors [of "''2+'' @ CHR ''+'' # ''3''" "''2+''" "CHR ''+''" "''3''"
      "''+''" "[''2'']"]
    operator_context_errors [of "''2+3*''" "[]" "CHR ''+''" "[]" "''*+''" "[''2'', ''3'']"]
    scan_example_plus scan_example_times
  by (simp add: MAX_EXPR_def MAX_TOKENS_def)

theorem end_of_input_counterexample:
  "scan ''('' [] [] True = Inr (''('', [], True)
   \<and> infix_to_postfix ''('' = Inl MismatchedParentheses
   \<and> err_text MismatchedParentheses \<noteq> err_text ExpressionEndsUnexpectedly
   \<and> scan (concat (replicate 2049 ''1^'')) [] [] True
       = Inr (replicate 2049 (CHR ''^''), replicate 2049 ''1'', True)
   \<and> infix_to_postfix (concat (replicate 2049 ''1^'')) = Inl TooManyTokens
   \<and> err_text TooManyTokens \<noteq> err_text ExpressionEndsUnexpectedly"
proof -
  have "scan ''('' [] [] True = Inr (''('', [], True)
   \<and> infix_to_postfix ''('' = Inl MismatchedParentheses"
    by code_simp
  moreover have "drain (replicate 2049 (CHR ''^'')) (replicate 2049 ''1'') = Inl TooManyTokens"
    by (subst drain_operators) (simp_all add: ops_ok_def list_all_iff is_operator_def MAX_TOKENS_def)
  then have "infix_to_postfix (concat (replicate 2049 ''1^'')) = Inl TooManyTokens"
    by (simp add: infix_to_postfix_def long_chain_open)
  ultimately show ?thesis using long_chain_open by simp
qed

text \<open>
  Claim C3, as amended. Let \<open>c\<close> be a character of the input that is not white space,
  not a digit, not one of \<open>+ - * / % ^ ( )\<close> and not the letter \<open>u\<close>. Then
  \<open>infix_to_postfix\<close> fails: with the error raised on the text before \<open>c\<close> if that text
  raises one, and otherwise with "Invalid character: 'c'". The scan returns at the first
  error, so an earlier error wins, as in the counterexample \<open>*a\<close>. The letter \<open>u\<close> is
  left out: \<open>is_operator\<close> takes it for the unary minus (\<open>letter_u_is_accepted\<close>).
\<close>

theorem invalid_character:
  assumes "expr = pre @ c # rest" and "CHR 0x00 \<notin> set pre" and "c \<noteq> CHR 0x00"
    and "\<not> isspace c" and "\<not> isdigit c" and "c \<notin> set ''+-*/%^()u''"
  shows "infix_to_postfix expr =
           (case scan pre [] [] True of
              Inl e \<Rightarrow> Inl e
            | Inr st \<Rightarrow> Inl (InvalidCharacter c))
         \<and> (\<forall>p. infix_to_postfix expr \<noteq> Inr p)
         \<and> err_text (InvalidCharacter c) = ''Invalid character: '' @ [CHR 0x27, c, CHR 0x27]"
proof -
  have "scan expr [] [] True =
     (case scan pre [] [] True of
        Inl e \<Rightarrow> Inl e
      | Inr (ops', toks', eo') \<Rightarrow> scan (c # rest) ops' toks' eo')"
    unfolding assms(1) using assms(2,5) by (rule scan_append)
  also have "\<dots> = (case scan pre [] [] True of Inl e \<Rightarrow> Inl e | Inr st \<Rightarrow> Inl (InvalidCharacter c))"
    by (simp add: scan_invalid_character [OF assms(3-6)] split: sum.split)
  finally have "infix_to_postfix expr =
     (case scan pre [] [] True of Inl e \<Rightarrow> Inl e | Inr st \<Rightarrow> Inl (InvalidCharacter c))"
    by (simp add: infix_to_postfix_def split: sum.split)
  then show ?thesis by (simp split: sum.splits)
qed

lemma scan_example_one_plus: "scan ''1+'' [] [] True = Inr (''+'', [''1''], True)"
  by code_simp
lemma scan_example_plus_times: "scan ''1+*'' [] [] True = Inl UnexpectedOperator"
  by code_simp

theorem invalid_character_witness:
  "infix_to_postfix (''1+'' @ CHR ''x'' # ''+2'') = Inl (InvalidCharacter (CHR ''x''))
   \<and> infix_to_postfix (''1+*'' @ CHR ''x'' # ''+2'') = Inl UnexpectedOperator"
  using invalid_character [of "''1+'' @ CHR ''x'' # ''+2''" "''1+''" "CHR ''x''" "''+2''"]
    invalid_character [of "''1+*'' @ CHR ''x'' # ''+2''" "''1+*''" "CHR ''x''" "''+2''"]
    scan_example_one_plus scan_example_plus_times
  by (simp add: isspace_def isdigit_def)

theorem invalid_character_counterexample:
  "infix_to_postfix ''*a'' = Inl UnexpectedOperator
   \<and> err_text UnexpectedOperator \<noteq> err_text (InvalidCharacter (CHR ''a''))"
proof -
  have "infix_to_postfix ''*a'' = Inl UnexpectedOperator" by code_simp
  then show ?thesis by simp
qed

lemma letter_u_is_accepted:
  "infix_to_postfix ''u5'' = Inr [''5'', ''u''] \<and> evaluate_postfix [''5'', ''u''] = Inr (- 5)"
  by code_simp

section \<open>Numerals that the evaluator rejects\<close>

text \<open>
  Claim C5, as amended. When \<open>infix_to_postfix\<close> succeeds, every token it produced is an
  operator token or a numeral of one to 63 decimal digits, and \<open>evaluate_postfix\<close> fails
  with "Invalid number in postfix" only if one of these numerals denotes a number above
  \<open>LLONG_MAX\<close>. The parser bounds the length of a numeral, not its value: the
  counterexample is the 19-digit numeral \<open>9223372036854775808\<close>.
\<close>

theorem numerals_of_the_parser:
  assumes "infix_to_postfix expr = Inr p"
  shows "(\<forall>t \<in> set p. operator_token t \<or> numeral_token t)
         \<and> (evaluate_postfix p = Inl InvalidNumber \<longrightarrow>
              (\<exists>t \<in> set p. numeral_token t \<and> dec_value t > sint LLONG_MAX))"
proof -
  have ok: "toks_ok p" using assms by (rule infix_to_postfix_tokens)
  have "\<exists>t \<in> set p. numeral_token t \<and> dec_value t > sint LLONG_MAX"
    if "evaluate_postfix p = Inl InvalidNumber"
  proof -
    from that have "eval_loop p [] = Inl InvalidNumber"
      by (auto simp: evaluate_postfix_def split: sum.splits if_splits)
    then show ?thesis using ok by (rule eval_loop_invalid_number)
  qed
  with ok show ?thesis by (simp add: toks_ok_def list_all_iff)
qed

lemma big_numeral_parsed:
  "infix_to_postfix ''12+9223372036854775808'' = Inr [''12'', ''9223372036854775808'', ''+'']"
  by code_simp
lemma big_numeral_evaluated:
  "evaluate_postfix [''12'', ''9223372036854775808'', ''+''] = Inl InvalidNumber"
  by code_simp

theorem numerals_of_the_parser_witness:
  "infix_to_postfix ''12+9223372036854775808'' = Inr [''12'', ''9223372036854775808'', ''+'']
   \<and> (\<exists>t \<in> set [''12'', ''9223372036854775808'', ''+''].
         numeral_token t \<and> dec_value t > sint LLONG_MAX)
   \<and> (operator_token ''12'' \<or> numeral_token ''12'')"
proof -
  note th = numerals_of_the_parser [OF big_numeral_parsed]
  from th big_numeral_evaluated
  have "\<exists>t \<in> set [''12'', ''9223372036854775808'', ''+''].
       numeral_token t \<and> dec_value t > sint LLONG_MAX"
    by blast
  moreover from th have "operator_token ''12'' \<or> numeral_token ''12''"
    by simp
  ultimately show ?thesis using big_numeral_parsed by blast
qed

theorem numerals_of_the_parser_counterexample:
  "infix_to_postfix ''9223372036854775808'' = Inr [''9223372036854775808'']
   \<and> evaluate_postfix [''9223372036854775808''] = Inl InvalidNumber"
  by code_simp

end
